theory Spec2Isabelle
  imports Main
begin

section \<open>Values, errors and dictionaries\<close>

text \<open>
  A value the mapped function can hand back: Python's \<open>None\<close>, a payload (a Dataset or
  a DataArray), a tuple of values, or a value of any other type (kept with the text that
  Python prints for its type, such as \<open><class 'int'>\<close>).
\<close>

datatype 'p obj = NoneObj | Data 'p | Tuple "'p obj list" | Other string

definition newline :: string where
  "newline = [CHR 0x0A]"

definition quote :: string where
  "quote = [CHR 0x27]"

text \<open>What \<open>{type(r)}\<close> prints inside an f-string.\<close>

fun type_name :: "'p obj \<Rightarrow> string" where
  "type_name NoneObj = ''<class '' @ quote @ ''NoneType'' @ quote @ ''>''"
| "type_name (Data _) = ''<class '' @ quote @ ''xarray.core.dataset.Dataset'' @ quote @ ''>''"
| "type_name (Tuple _) = ''<class '' @ quote @ ''tuple'' @ quote @ ''>''"
| "type_name (Other ty) = ty"

fun is_tuple :: "'p obj \<Rightarrow> bool" where
  "is_tuple (Tuple _) = True"
| "is_tuple _ = False"

text \<open>The exceptions of \<open>mapping.py\<close>, each with its message.\<close>

datatype error =
    TypeError string | TreeIsomorphismError string | IndexError | KeyError string | ValueError string

text \<open>Decimal rendering of a number inside an f-string.\<close>

fun string_of_nat :: "nat \<Rightarrow> string" where
  "string_of_nat n =
     (if n < 10 then [''0123456789'' ! n]
      else string_of_nat (n div 10) @ [''0123456789'' ! (n mod 10)])"

text \<open>Python's \<open>sep.join(xs)\<close>.\<close>

fun join :: "string \<Rightarrow> string list \<Rightarrow> string" where
  "join sep [] = []"
| "join sep [x] = x"
| "join sep (x # y # ys) = x @ sep @ join sep (y # ys)"

text \<open>Python's \<open>s.split(c)\<close> for a one-character separator.\<close>

fun split_on :: "char \<Rightarrow> string \<Rightarrow> string list" where
  "split_on c [] = [[]]"
| "split_on c (x # xs) =
     (if x = c then [] # split_on c xs
      else (case split_on c xs of [] \<Rightarrow> [[x]] | w # ws \<Rightarrow> (x # w) # ws))"

text \<open>
  Python's \<open>textwrap.dedent\<close>. Lines that hold only spaces and tabs become empty; the
  margin is the longest run of spaces and tabs that starts every other line; it is taken
  away from the start of each line.
\<close>

definition is_blank :: "char \<Rightarrow> bool" where
  "is_blank c = (c = CHR '' '' \<or> c = CHR 0x09)"

fun common_prefix :: "string \<Rightarrow> string \<Rightarrow> string" where
  "common_prefix (x # xs) (y # ys) = (if x = y then x # common_prefix xs ys else [])"
| "common_prefix xs ys = []"

definition narrow_margin :: "string \<Rightarrow> string \<Rightarrow> string" where
  "narrow_margin margin indent =
     (if take (length margin) indent = margin then margin
      else if take (length indent) margin = indent then indent
      else common_prefix margin indent)"

definition blank_lines :: "string \<Rightarrow> string list" where
  "blank_lines text =
     map (\<lambda>l. if list_all is_blank l then [] else l) (split_on (CHR 0x0A) text)"

definition margin_of :: "string list \<Rightarrow> string" where
  "margin_of lines =
     (case map (takeWhile is_blank) (filter (\<lambda>l. l \<noteq> []) lines) of
        [] \<Rightarrow> []
      | i # is \<Rightarrow> foldl narrow_margin i is)"

definition strip_margin :: "string \<Rightarrow> string \<Rightarrow> string" where
  "strip_margin margin l =
     (if margin \<noteq> [] \<and> take (length margin) l = margin then drop (length margin) l else l)"

definition dedent :: "string \<Rightarrow> string" where
  "dedent text =
     (let lines = blank_lines text; margin = margin_of lines
      in join newline (map (strip_margin margin) lines))"

text \<open>
  A Python \<open>dict\<close>: an association list in insertion order; assigning to a key that is
  present replaces the value in place.
\<close>

type_synonym ('k, 'v) dict = "('k \<times> 'v) list"

fun dict_set :: "'k \<Rightarrow> 'v \<Rightarrow> ('k, 'v) dict \<Rightarrow> ('k, 'v) dict" where
  "dict_set k v [] = [(k, v)]"
| "dict_set k v ((k', v') # d) =
     (if k' = k then (k, v) # d else (k', v') # dict_set k v d)"

definition dict_keys :: "('k, 'v) dict \<Rightarrow> 'k list" where
  "dict_keys d = map fst d"

definition dict_values :: "('k, 'v) dict \<Rightarrow> 'v list" where
  "dict_values d = map snd d"

definition dict_of_items :: "('k \<times> 'v) list \<Rightarrow> ('k, 'v) dict" where
  "dict_of_items kvs = foldl (\<lambda>d (k, v). dict_set k v d) [] kvs"

section \<open>The return-value validator\<close>

definition bad_element_msg :: "string \<Rightarrow> string \<Rightarrow> string" where
  "bad_element_msg path_to_node ty =
     ''One of the results of calling func on datasets on the nodes at position '' @ path_to_node
     @ '' is of type '' @ ty @ '', not Dataset or DataArray.''"

definition bad_result_msg :: "string \<Rightarrow> string \<Rightarrow> string" where
  "bad_result_msg path_to_node ty =
     ''The result of calling func on the node at position '' @ path_to_node
     @ '' is of type '' @ ty @ '', not Dataset or DataArray, nor a tuple of such types.''"

definition all_none_msg :: string where
  "all_none_msg =
     ''Called supplied function on all nodes but found a return value of None forall of them.''"

definition inconsistent_msg :: "string \<Rightarrow> nat \<Rightarrow> string \<Rightarrow> nat \<Rightarrow> string" where
  "inconsistent_msg path_to_node num_return_values prev_path prev_num_return_values =
     ''Calling func on the nodes at position '' @ path_to_node @ '' returns ''
     @ string_of_nat num_return_values @ '' separate return values, whereas calling func on the ''
     @ ''nodes at position '' @ prev_path @ '' instead returns ''
     @ string_of_nat prev_num_return_values @ '' separate return values.''"

text \<open>The loop of \<open>_check_single_set_return_values\<close> over the elements of a tuple.\<close>

fun check_tuple_elements :: "string \<Rightarrow> 'p obj list \<Rightarrow> error + unit" where
  "check_tuple_elements path_to_node [] = Inr ()"
| "check_tuple_elements path_to_node (r # rs) =
     (case r of
        Data _ \<Rightarrow> check_tuple_elements path_to_node rs
      | _ \<Rightarrow> Inl (TypeError (bad_element_msg path_to_node (type_name r))))"

text \<open>\<open>_check_single_set_return_values\<close>: the number of return values of one evaluation.\<close>

fun check_single_set_return_values :: "string \<Rightarrow> 'p obj \<Rightarrow> error + nat" where
  "check_single_set_return_values path_to_node (Data _) = Inr 1"
| "check_single_set_return_values path_to_node (Tuple rs) =
     (case check_tuple_elements path_to_node rs of
        Inl e \<Rightarrow> Inl e
      | Inr _ \<Rightarrow> Inr (length rs))"
| "check_single_set_return_values path_to_node obj =
     Inl (TypeError (bad_result_msg path_to_node (type_name obj)))"

text \<open>
  The \<open>for\<close> loop of \<open>_check_all_return_values\<close> over \<open>result_data_objects[1:]\<close>. The
  state is \<open>prev_path\<close>, \<open>prev_num_return_values\<close> and \<open>num_return_values\<close>; the last
  two start as \<open>None\<close>.
\<close>

fun check_loop ::
  "string \<Rightarrow> nat option \<Rightarrow> nat option \<Rightarrow> (string \<times> 'p obj) list \<Rightarrow> error + nat option" where
  "check_loop prev_path prev_num_return_values num_return_values [] = Inr num_return_values"
| "check_loop prev_path prev_num_return_values num_return_values ((path_to_node, obj) # rest) =
     (case check_single_set_return_values path_to_node obj of
        Inl e \<Rightarrow> Inl e
      | Inr n \<Rightarrow>
          (case prev_num_return_values of
             Some prev_n \<Rightarrow>
               if n \<noteq> prev_n
               then Inl (TypeError (inconsistent_msg path_to_node n prev_path prev_n))
               else check_loop path_to_node (Some n) (Some n) rest
           | None \<Rightarrow> check_loop path_to_node (Some n) (Some n) rest))"

text \<open>
  \<open>_check_all_return_values\<close>. The result is the value of \<open>num_return_values\<close>, which
  Python leaves as \<open>None\<close> only if the loop body never ran.
\<close>

definition check_all_return_values :: "(string, 'p obj) dict \<Rightarrow> error + nat option" where
  "check_all_return_values returned_objects =
     (if list_all (\<lambda>r. r = NoneObj) (dict_values returned_objects)
      then Inl (TypeError all_none_msg)
      else
        (let result_data_objects = filter (\<lambda>(path_to_node, r). r \<noteq> NoneObj) returned_objects
         in case result_data_objects of
              [(path_to_node, result)] \<Rightarrow>
                (case check_single_set_return_values path_to_node result of
                   Inl e \<Rightarrow> Inl e
                 | Inr n \<Rightarrow> Inr (Some n))
            | (prev_path, _) # rest \<Rightarrow> check_loop prev_path None None rest
            | [] \<Rightarrow> Inl IndexError))"

section \<open>Trees\<close>

text \<open>
  Modelled from the spec: the tree node type (\<open>treenode.py\<close> and \<open>datatree.py\<close> are
  not part of the sources at hand). A node has a name, an optional payload and an ordered
  sequence of children, and knows its ancestors. A tree object handed to this module is a
  node together with the chain of its ancestors, closest first, as \<open>.parents\<close> gives it.
\<close>

datatype 'p tree = Node (name: string) (payload: "'p option") (children: "'p tree list")

record 'p datatree =
  parents :: "'p tree list"
  node :: "'p tree"

fun tree_size :: "'p tree \<Rightarrow> nat" where
  "tree_size (Node n d cs) = Suc (sum_list (map tree_size cs))"

text \<open>Modelled from the spec: \<open>.children\<close>, the child nodes in order, each knowing its parent.\<close>

definition tree_children :: "'p datatree \<Rightarrow> 'p datatree list" where
  "tree_children h = map (\<lambda>c. \<lparr>parents = node h # parents h, node = c\<rparr>) (children (node h))"

text \<open>Modelled from the spec: \<open>.root\<close>, the topmost ancestor (the node itself if it has none).\<close>

definition tree_root :: "'p datatree \<Rightarrow> 'p datatree" where
  "tree_root h = (case rev (parents h) of [] \<Rightarrow> h | r # _ \<Rightarrow> \<lparr>parents = [], node = r\<rparr>)"

text \<open>
  Modelled from the spec: \<open>.path\<close>, the slash-joined names from below the root down to the
  node itself; the root's path is \<open>/\<close>.
\<close>

definition ancestry :: "'p datatree \<Rightarrow> string list" where
  "ancestry h = (if parents h = [] then [] else map name (tl (rev (parents h))) @ [name (node h)])"

definition tree_path :: "'p datatree \<Rightarrow> string" where
  "tree_path h = ''/'' @ join ''/'' (ancestry h)"

text \<open>Modelled from the spec: \<open>.is_empty\<close> (no payload) and \<open>.to_dataset()\<close> (the raw payload).\<close>

definition is_empty :: "'p datatree \<Rightarrow> bool" where
  "is_empty h = (payload (node h) = None)"

definition to_dataset :: "'p datatree \<Rightarrow> 'p option" where
  "to_dataset h = payload (node h)"

text \<open>
  Modelled from the spec: \<open>LevelOrderIter\<close>, the breadth-first traversal, root first, one
  level after the other.
\<close>

definition forest_size :: "'p datatree list \<Rightarrow> nat" where
  "forest_size hs = sum_list (map (\<lambda>h. tree_size (node h)) hs)"

lemma forest_size_children: "forest_size (tree_children h) < tree_size (node h)"
  by (cases "node h") (simp add: forest_size_def tree_children_def comp_def)

lemma forest_size_concat:
  "hs \<noteq> [] \<Longrightarrow> forest_size (concat (map tree_children hs)) < forest_size hs"
proof (induction hs)
  case Nil
  then show ?case by simp
next
  case (Cons h hs)
  have a: "forest_size (tree_children h) < tree_size (node h)"
    by (rule forest_size_children)
  show ?case
  proof (cases "hs = []")
    case True
    with a show ?thesis by (simp add: forest_size_def)
  next
    case False
    with Cons.IH have "forest_size (concat (map tree_children hs)) < forest_size hs" by simp
    with a show ?thesis by (simp add: forest_size_def)
  qed
qed

function level_order :: "'p datatree list \<Rightarrow> 'p datatree list" where
  "level_order hs = (if hs = [] then [] else hs @ level_order (concat (map tree_children hs)))"
  by pat_completeness auto
termination
  by (relation "measure forest_size") (auto simp: forest_size_concat)

declare level_order.simps [simp del]

definition LevelOrderIter :: "'p datatree \<Rightarrow> 'p datatree list" where
  "LevelOrderIter a = level_order [a]"

text \<open>
  Modelled from the spec: \<open>.subtree\<close>, the depth-first pre-order traversal: a node, then
  the subtree of each child in order.
\<close>

fun subtree_from :: "'p tree list \<Rightarrow> 'p tree \<Rightarrow> 'p datatree list" where
  "subtree_from ps (Node n d cs) =
     \<lparr>parents = ps, node = Node n d cs\<rparr> # concat (map (subtree_from (Node n d cs # ps)) cs)"

definition subtree :: "'p datatree \<Rightarrow> 'p datatree list" where
  "subtree h = subtree_from (parents h) (node h)"

section \<open>Isomorphism of trees\<close>

text \<open>
  The two messages of \<open>diff_treestructure\<close>: the text of the f-string, whose two lines
  start with sixteen spaces, with the paths, names and numbers put in, and then dedented.
\<close>

definition indent16 :: string where
  "indent16 = replicate 16 (CHR '' '')"

definition name_diff_msg :: "string \<Rightarrow> string \<Rightarrow> string \<Rightarrow> string \<Rightarrow> string" where
  "name_diff_msg path_a name_a path_b name_b =
     dedent
       (indent16 @ ''Node '' @ quote @ path_a @ quote @ '' in the left object has name ''
        @ quote @ name_a @ quote @ newline
        @ indent16 @ ''Node '' @ quote @ path_b @ quote @ '' in the right object has name ''
        @ quote @ name_b @ quote)"

definition children_diff_msg :: "string \<Rightarrow> nat \<Rightarrow> string \<Rightarrow> nat \<Rightarrow> string" where
  "children_diff_msg path_a n_a path_b n_b =
     dedent
       (indent16 @ ''Number of children on node '' @ quote @ path_a @ quote
        @ '' of the left object: '' @ string_of_nat n_a @ newline
        @ indent16 @ ''Number of children on node '' @ quote @ path_b @ quote
        @ '' of the right object: '' @ string_of_nat n_b)"

text \<open>The loop of \<open>diff_treestructure\<close> over the paired nodes.\<close>

fun diff_pairs :: "bool \<Rightarrow> ('p datatree \<times> 'p datatree) list \<Rightarrow> string" where
  "diff_pairs require_names_equal [] = []"
| "diff_pairs require_names_equal ((node_a, node_b) # rest) =
     (if require_names_equal \<and> name (node node_a) \<noteq> name (node node_b)
      then name_diff_msg (tree_path node_a) (name (node node_a))
             (tree_path node_b) (name (node node_b))
      else if length (tree_children node_a) \<noteq> length (tree_children node_b)
      then children_diff_msg (tree_path node_a) (length (tree_children node_a))
             (tree_path node_b) (length (tree_children node_b))
      else diff_pairs require_names_equal rest)"

definition diff_treestructure :: "'p datatree \<Rightarrow> 'p datatree \<Rightarrow> bool \<Rightarrow> string" where
  "diff_treestructure a b require_names_equal =
     diff_pairs require_names_equal (zip (LevelOrderIter a) (LevelOrderIter b))"

text \<open>
  An argument of a call is a tree or a value of another type (kept with the name of its
  type).
\<close>

datatype ('p, 'v) arg = TreeArg "'p datatree" | OtherArg string 'v

definition check_isomorphic ::
  "('p, 'v) arg \<Rightarrow> ('p, 'v) arg \<Rightarrow> bool \<Rightarrow> bool \<Rightarrow> error + unit" where
  "check_isomorphic a b require_names_equal check_from_root =
     (case a of
        OtherArg ty _ \<Rightarrow> Inl (TypeError (''Argument `a` is not a tree, it is of type '' @ ty))
      | TreeArg ta \<Rightarrow>
          (case b of
             OtherArg ty _ \<Rightarrow> Inl (TypeError (''Argument `b` is not a tree, it is of type '' @ ty))
           | TreeArg tb \<Rightarrow>
               (let a' = (if check_from_root then tree_root ta else ta);
                    b' = (if check_from_root then tree_root tb else tb);
                    diff = diff_treestructure a' b' require_names_equal
                in if diff \<noteq> []
                   then Inl (TreeIsomorphismError
                               (''DataTree objects are not isomorphic:'' @ newline @ diff))
                   else Inr ())))"

text \<open>
  Two trees have the same branching structure: the same number of children at the root
  (and the same name, when names count), and children that correspond in order.
\<close>

fun iso :: "bool \<Rightarrow> 'p tree \<Rightarrow> 'p tree \<Rightarrow> bool" where
  "iso rne (Node n1 d1 cs1) (Node n2 d2 cs2) =
     ((rne \<longrightarrow> n1 = n2) \<and> list_all2 (iso rne) cs1 cs2)"

text \<open>What \<open>diff_treestructure\<close> tests at one pair of nodes.\<close>

definition same_here :: "bool \<Rightarrow> 'p datatree \<Rightarrow> 'p datatree \<Rightarrow> bool" where
  "same_here rne a b =
     ((rne \<longrightarrow> name (node a) = name (node b))
      \<and> length (tree_children a) = length (tree_children b))"

section \<open>Paths\<close>

text \<open>
  Modelled from the spec: \<open>NodePath\<close>, a \<open>pathlib.PurePosixPath\<close>. Its \<open>parts\<close> are the
  root \<open>/\<close>, when the string starts with a slash, and then the components between the
  slashes, the empty ones and \<open>.\<close> left out. Its \<open>str\<close> joins the parts again, and is \<open>.\<close>
  when there are none. \<open>relative_to\<close> takes away the parts of the other path when they
  are a prefix, and raises \<open>ValueError\<close> otherwise.
\<close>

definition posix_parts :: "string \<Rightarrow> string list" where
  "posix_parts s =
     (case s of [] \<Rightarrow> [] | c # _ \<Rightarrow> (if c = CHR ''/'' then [''/''] else []))
     @ filter (\<lambda>w. w \<noteq> [] \<and> w \<noteq> ''.'') (split_on (CHR ''/'') s)"

fun posix_str :: "string list \<Rightarrow> string" where
  "posix_str [] = ''.''"
| "posix_str (p # ps) = (if p = ''/'' then ''/'' @ join ''/'' ps else join ''/'' (p # ps))"

definition relative_to :: "string list \<Rightarrow> string list \<Rightarrow> error + string list" where
  "relative_to p other =
     (if take (length other) p = other then Inr (drop (length other) p)
      else Inl (ValueError (posix_str p @ '' is not in the subpath of '' @ posix_str other)))"

section \<open>Building a tree from a dictionary\<close>

text \<open>
  Modelled from the spec: what a node can hold. \<open>None\<close> gives a node without payload, a
  payload is stored, anything else is refused.
\<close>

fun coerce_data :: "'p obj \<Rightarrow> error + 'p option" where
  "coerce_data NoneObj = Inr None"
| "coerce_data (Data p) = Inr (Some p)"
| "coerce_data v = Inl (TypeError (type_name v @ '' object is not a Dataset or DataArray''))"

fun find_child :: "string \<Rightarrow> 'p tree list \<Rightarrow> ('p tree list \<times> 'p tree \<times> 'p tree list) option" where
  "find_child k [] = None"
| "find_child k (c # cs) =
     (if name c = k then Some ([], c, cs)
      else (case find_child k cs of
              None \<Rightarrow> None
            | Some (pre, x, post) \<Rightarrow> Some (c # pre, x, post)))"

text \<open>
  Modelled from the spec: storing a new node under a relative path of a tree. The nodes
  on the way are created, empty, where they are missing; the new node becomes the last
  child of its parent; a node that exists already is not overwritten.
\<close>

fun set_item :: "string list \<Rightarrow> 'p tree \<Rightarrow> 'p tree \<Rightarrow> error + 'p tree" where
  "set_item [] item t = Inl (ValueError ''Cannot set an item under a path which has no name'')"
| "set_item [nm] item (Node n d cs) =
     (case find_child nm cs of
        Some _ \<Rightarrow> Inl (KeyError ''Already a node object at path'')
      | None \<Rightarrow> Inr (Node n d (cs @ [item])))"
| "set_item (part # rest) item (Node n d cs) =
     (case find_child part cs of
        Some (pre, c, post) \<Rightarrow>
          (case set_item rest item c of
             Inl e \<Rightarrow> Inl e
           | Inr c' \<Rightarrow> Inr (Node n d (pre @ c' # post)))
      | None \<Rightarrow>
          (case set_item rest item (Node part None []) of
             Inl e \<Rightarrow> Inl e
           | Inr c' \<Rightarrow> Inr (Node n d (cs @ [c']))))"

fun from_dict_loop :: "'p tree \<Rightarrow> (string, 'p obj) dict \<Rightarrow> error + 'p tree" where
  "from_dict_loop t [] = Inr t"
| "from_dict_loop t ((path, data) # rest) =
     (case coerce_data data of
        Inl e \<Rightarrow> Inl e
      | Inr dd \<Rightarrow>
          (let parts = posix_parts path;
               rel = (case parts of [] \<Rightarrow> [] | p # ps \<Rightarrow> if p = ''/'' then ps else parts);
               node_name = (if rel = [] then [] else last rel)
           in case set_item rel (Node node_name dd []) t of
                Inl e \<Rightarrow> Inl e
              | Inr t' \<Rightarrow> from_dict_loop t' rest))"

text \<open>
  Modelled from the spec: \<open>DataTree.from_dict\<close>, constructing a tree from a mapping of
  paths to payloads plus a name. The entry \<open>/\<close> is the payload of the root, which gets
  the name; every other entry becomes a node at its path, in the order of the mapping.
\<close>

definition from_dict :: "(string, 'p obj) dict \<Rightarrow> string \<Rightarrow> error + 'p datatree" where
  "from_dict d nm =
     (let root_data = (case map_of d ''/'' of None \<Rightarrow> NoneObj | Some v \<Rightarrow> v);
          d_cast = filter (\<lambda>(k, _). k \<noteq> ''/'') d
      in case coerce_data root_data of
           Inl e \<Rightarrow> Inl e
         | Inr rd \<Rightarrow>
             (case from_dict_loop (Node nm rd []) d_cast of
                Inl e \<Rightarrow> Inl e
              | Inr t \<Rightarrow> Inr \<lparr>parents = [], node = t\<rparr>))"

section \<open>Mapping a function over trees\<close>

text \<open>
  What the mapped function receives for one argument at one node: the dataset of a tree
  node (\<open>None\<close> standing for the empty dataset of a node without payload), or the value
  of a non-tree argument, unchanged.
\<close>

datatype ('p, 'v) node_arg = DatasetArg "'p option" | ValueArg string 'v

type_synonym ('p, 'v) func =
  "('p, 'v) node_arg list \<Rightarrow> (string \<times> ('p, 'v) node_arg) list \<Rightarrow> 'p obj"

text \<open>
  An iterable is a finite sequence or \<open>itertools.repeat(a)\<close>. \<open>zip\<close> asks each of its
  iterables for the next item, in order, and stops when one of them has none.
\<close>

datatype 'a iterable = Finite "'a list" | Repeat 'a

fun next_item :: "'a iterable \<Rightarrow> ('a \<times> 'a iterable) option" where
  "next_item (Finite []) = None"
| "next_item (Finite (x # xs)) = Some (x, Finite xs)"
| "next_item (Repeat a) = Some (a, Repeat a)"

fun next_all :: "'a iterable list \<Rightarrow> ('a list \<times> 'a iterable list) option" where
  "next_all [] = Some ([], [])"
| "next_all (it # its) =
     (case next_item it of
        None \<Rightarrow> None
      | Some (x, it') \<Rightarrow>
          (case next_all its of
             None \<Rightarrow> None
           | Some (xs, its') \<Rightarrow> Some (x # xs, it' # its')))"

fun zip_iterables :: "'b list \<Rightarrow> 'a iterable list \<Rightarrow> ('b \<times> 'a list) list" where
  "zip_iterables [] its = []"
| "zip_iterables (n # ns) its =
     (case next_all its of
        None \<Rightarrow> []
      | Some (row, its') \<Rightarrow> (n, row) # zip_iterables ns its')"

fun trees_of :: "('p, 'v) arg list \<Rightarrow> 'p datatree list" where
  "trees_of [] = []"
| "trees_of (TreeArg t # as) = t # trees_of as"
| "trees_of (OtherArg ty v # as) = trees_of as"

definition all_tree_inputs ::
  "('p, 'v) arg list \<Rightarrow> (string, ('p, 'v) arg) dict \<Rightarrow> 'p datatree list" where
  "all_tree_inputs args kwargs = trees_of args @ trees_of (dict_values kwargs)"

text \<open>The loop that checks every other tree against the first one.\<close>

fun check_other_trees :: "'p datatree \<Rightarrow> 'p datatree list \<Rightarrow> error + unit" where
  "check_other_trees first_tree [] = Inr ()"
| "check_other_trees first_tree (other_tree # rest) =
     (case check_isomorphic (TreeArg first_tree :: ('p, unit) arg) (TreeArg other_tree) False False of
        Inl e \<Rightarrow> Inl e
      | Inr _ \<Rightarrow> check_other_trees first_tree rest)"

fun as_iterable :: "('p, 'v) arg \<Rightarrow> ('p, 'v) arg iterable" where
  "as_iterable (TreeArg a) = Finite (map TreeArg (subtree a))"
| "as_iterable (OtherArg ty v) = Repeat (OtherArg ty v)"

fun as_dataset :: "('p, 'v) arg \<Rightarrow> ('p, 'v) node_arg" where
  "as_dataset (TreeArg a) = DatasetArg (to_dataset a)"
| "as_dataset (OtherArg ty v) = ValueArg ty v"

text \<open>
  Modelled from the spec: the deferral capability (\<open>dask.delayed\<close> and \<open>dask.compute\<close>).
  Calling the delayed function builds a placeholder that holds the arguments; computing
  a list of values calls the function once for every placeholder in it and leaves the
  other values as they are.
\<close>

datatype ('p, 'v) delayed =
    Delayed "('p, 'v) node_arg list" "(string \<times> ('p, 'v) node_arg) list"
  | Immediate "'p obj"

fun compute1 :: "('p, 'v) func \<Rightarrow> ('p, 'v) delayed \<Rightarrow> 'p obj" where
  "compute1 func (Delayed as kws) = func as kws"
| "compute1 func (Immediate v) = v"

fun calls_of ::
  "('p, 'v) delayed list \<Rightarrow> (('p, 'v) node_arg list \<times> (string \<times> ('p, 'v) node_arg) list) list" where
  "calls_of [] = []"
| "calls_of (Delayed as kws # ds) = (as, kws) # calls_of ds"
| "calls_of (Immediate v # ds) = calls_of ds"

text \<open>One round of the traversal loop of \<open>_map_over_subtree\<close>.\<close>

definition traverse_step ::
  "nat \<Rightarrow> string list \<Rightarrow> (string, ('p, 'v) delayed) dict \<Rightarrow> 'p datatree \<times> ('p, 'v) arg list
   \<Rightarrow> (string, ('p, 'v) delayed) dict" where
  "traverse_step n_args keys out_data_objects row =
     (case row of (node_of_first_tree, all_node_args) \<Rightarrow>
        (let node_args_as_datasets = map as_dataset (take n_args all_node_args);
             node_kwargs_as_datasets =
               dict_of_items (zip keys (map as_dataset (drop n_args all_node_args)));
             results =
               (if \<not> is_empty node_of_first_tree
                then Delayed node_args_as_datasets node_kwargs_as_datasets
                else Immediate NoneObj)
         in dict_set (tree_path node_of_first_tree) results out_data_objects))"

definition traverse ::
  "'p datatree \<Rightarrow> ('p, 'v) arg list \<Rightarrow> (string, ('p, 'v) arg) dict
   \<Rightarrow> (string, ('p, 'v) delayed) dict" where
  "traverse first_tree args kwargs =
     foldl (traverse_step (length args) (dict_keys kwargs)) []
       (zip_iterables (subtree first_tree)
          (map as_iterable args @ map as_iterable (dict_values kwargs)))"

definition dask_compute ::
  "('p, 'v) func \<Rightarrow> (string, ('p, 'v) delayed) dict \<Rightarrow> (string, 'p obj) dict" where
  "dask_compute func out_data_objects =
     dict_of_items (zip (dict_keys out_data_objects)
                        (map (compute1 func) (dict_values out_data_objects)))"

text \<open>The choice of \<open>output_node_data\<close> for the node at path \<open>p\<close> and the output \<open>i\<close>.\<close>

definition output_node_data :: "(string, 'p obj) dict \<Rightarrow> string \<Rightarrow> nat \<Rightarrow> error + 'p obj" where
  "output_node_data out_data_objects p i =
     (case map_of out_data_objects p of
        Some (Tuple xs) \<Rightarrow> if i < length xs then Inr (xs ! i) else Inl IndexError
      | Some v \<Rightarrow> Inr v
      | None \<Rightarrow> Inr NoneObj)"

definition relative_path :: "string \<Rightarrow> string \<Rightarrow> error + string" where
  "relative_path p original_root_path =
     (case relative_to (posix_parts p) (posix_parts original_root_path) of
        Inl e \<Rightarrow> Inl e
      | Inr r \<Rightarrow> Inr (if posix_str r = ''.'' then ''/'' else posix_str r))"

text \<open>The inner loop of the reconstruction, over the nodes of the first tree.\<close>

fun build_contents ::
  "(string, 'p obj) dict \<Rightarrow> string \<Rightarrow> nat \<Rightarrow> (string, 'p obj) dict \<Rightarrow> 'p datatree list
   \<Rightarrow> error + (string, 'p obj) dict" where
  "build_contents out_data_objects original_root_path i out_tree_contents [] =
     Inr out_tree_contents"
| "build_contents out_data_objects original_root_path i out_tree_contents (n # ns) =
     (case output_node_data out_data_objects (tree_path n) i of
        Inl e \<Rightarrow> Inl e
      | Inr data \<Rightarrow>
          (case relative_path (tree_path n) original_root_path of
             Inl e \<Rightarrow> Inl e
           | Inr rp \<Rightarrow>
               build_contents out_data_objects original_root_path i
                 (dict_set rp data out_tree_contents) ns))"

text \<open>The outer loop of the reconstruction, over the output indices.\<close>

fun build_trees ::
  "'p datatree \<Rightarrow> (string, 'p obj) dict \<Rightarrow> nat list \<Rightarrow> error + 'p datatree list" where
  "build_trees first_tree out_data_objects [] = Inr []"
| "build_trees first_tree out_data_objects (i # is) =
     (case build_contents out_data_objects (tree_path first_tree) i [] (subtree first_tree) of
        Inl e \<Rightarrow> Inl e
      | Inr out_tree_contents \<Rightarrow>
          (case from_dict out_tree_contents (name (node first_tree)) of
             Inl e \<Rightarrow> Inl e
           | Inr new_tree \<Rightarrow>
               (case build_trees first_tree out_data_objects is of
                  Inl e \<Rightarrow> Inl e
                | Inr result_trees \<Rightarrow> Inr (new_tree # result_trees))))"

datatype 'p result = SingleTree "'p datatree" | TreeTuple "'p datatree list"

text \<open>
  \<open>_map_over_subtree\<close>. The first component of the result is the list of the calls of the
  mapped function that were made, the second one the outcome.
\<close>

definition map_over_subtree ::
  "('p, 'v) func \<Rightarrow> ('p, 'v) arg list \<Rightarrow> (string, ('p, 'v) arg) dict
   \<Rightarrow> (('p, 'v) node_arg list \<times> (string \<times> ('p, 'v) node_arg) list) list
      \<times> (error + 'p result)" where
  "map_over_subtree func args kwargs =
     (case all_tree_inputs args kwargs of
        [] \<Rightarrow> ([], Inl (TypeError ''Must pass at least one tree object''))
      | first_tree # other_trees \<Rightarrow>
          (case check_other_trees first_tree other_trees of
             Inl e \<Rightarrow> ([], Inl e)
           | Inr _ \<Rightarrow>
               (let delayed_objects = traverse first_tree args kwargs;
                    out_data_objects = dask_compute func delayed_objects
                in (calls_of (dict_values delayed_objects),
                    case check_all_return_values out_data_objects of
                      Inl e \<Rightarrow> Inl e
                    | Inr None \<Rightarrow>
                        Inl (TypeError ''NoneType object cannot be interpreted as an integer'')
                    | Inr (Some num_return_values) \<Rightarrow>
                        (case build_trees first_tree out_data_objects [0..<num_return_values] of
                           Inl e \<Rightarrow> Inl e
                         | Inr result_trees \<Rightarrow>
                             (case result_trees of
                                [t] \<Rightarrow> Inr (SingleTree t)
                              | _ \<Rightarrow> Inr (TreeTuple result_trees)))))))"

section \<open>Notions used in the statements\<close>

text \<open>The rows of the traversal loop: each node of the first tree with the items zipped to it.\<close>

definition node_rows ::
  "'p datatree \<Rightarrow> ('p, 'v) arg list \<Rightarrow> (string, ('p, 'v) arg) dict
   \<Rightarrow> ('p datatree \<times> ('p, 'v) arg list) list" where
  "node_rows first_tree args kwargs =
     zip_iterables (subtree first_tree)
       (map as_iterable args @ map as_iterable (dict_values kwargs))"

text \<open>The positional and keyword arguments that the function gets for one row.\<close>

definition node_call ::
  "nat \<Rightarrow> string list \<Rightarrow> ('p, 'v) arg list
   \<Rightarrow> ('p, 'v) node_arg list \<times> (string \<times> ('p, 'v) node_arg) list" where
  "node_call n_args keys all_node_args =
     (map as_dataset (take n_args all_node_args),
      dict_of_items (zip keys (map as_dataset (drop n_args all_node_args))))"

text \<open>What one round of the traversal loop records: the path of the node and the result.\<close>

definition recorded ::
  "nat \<Rightarrow> string list \<Rightarrow> 'p datatree \<times> ('p, 'v) arg list \<Rightarrow> string \<times> ('p, 'v) delayed" where
  "recorded n_args keys row =
     (tree_path (fst row),
      if is_empty (fst row) then Immediate NoneObj
      else Delayed (fst (node_call n_args keys (snd row))) (snd (node_call n_args keys (snd row))))"

text \<open>An iterable yields at least \<open>n\<close> items.\<close>

fun long_enough :: "nat \<Rightarrow> 'a iterable \<Rightarrow> bool" where
  "long_enough n (Finite xs) = (n \<le> length xs)"
| "long_enough n (Repeat a) = True"

text \<open>
  The names that a node below the first tree can have without confusing the paths: not
  empty, no slash, and neither \<open>.\<close> nor \<open>..\<close>. A tree is well named when the children of
  every node have such names, different from each other.
\<close>

definition valid_name :: "string \<Rightarrow> bool" where
  "valid_name s = (s \<noteq> [] \<and> s \<noteq> ''.'' \<and> s \<noteq> ''..'' \<and> CHR ''/'' \<notin> set s)"

fun valid_tree :: "'p tree \<Rightarrow> bool" where
  "valid_tree (Node n d cs) =
     (distinct (map name cs) \<and> list_all (\<lambda>c. valid_name (name c) \<and> valid_tree c) cs)"

text \<open>The names on the way from a tree's root to each of its nodes, in pre-order.\<close>

fun rel_paths :: "'p tree \<Rightarrow> string list list" where
  "rel_paths (Node n d cs) = [] # concat (map (\<lambda>c. map ((#) (name c)) (rel_paths c)) cs)"

text \<open>The key of a node in the contents of an output tree.\<close>

definition rel_key :: "string list \<Rightarrow> string" where
  "rel_key r = (if r = [] then ''/'' else join ''/'' r)"

text \<open>The absolute path of the node that lies at \<open>r\<close> below the tree object \<open>h\<close>.\<close>

definition abs_path :: "'p datatree \<Rightarrow> string list \<Rightarrow> string" where
  "abs_path h r = ''/'' @ join ''/'' (ancestry h @ r)"

text \<open>The components of a path string that count.\<close>

definition components :: "string \<Rightarrow> string list" where
  "components s = filter (\<lambda>w. w \<noteq> [] \<and> w \<noteq> ''.'') (split_on (CHR ''/'') s)"

text \<open>A tree of the same shape and names, with the payload of each node given by its place.\<close>

fun rebuild :: "(string list \<Rightarrow> 'q option) \<Rightarrow> string list \<Rightarrow> 'p tree \<Rightarrow> 'q tree" where
  "rebuild g pre (Node n d cs) =
     Node n (g pre) (map (\<lambda>c. rebuild g (pre @ [name c]) c) cs)"

text \<open>Storing new leaves at a list of places, one after the other.\<close>

fun insert_all :: "(string list \<times> 'p option) list \<Rightarrow> 'p tree \<Rightarrow> error + 'p tree" where
  "insert_all [] t = Inr t"
| "insert_all ((r, x) # its) t =
     (case set_item r (Node (if r = [] then [] else last r) x []) t of
        Inl e \<Rightarrow> Inl e
      | Inr t' \<Rightarrow> insert_all its t')"

text \<open>The trees of a result.\<close>

fun trees_of_result :: "'p result \<Rightarrow> 'p datatree list" where
  "trees_of_result (SingleTree t) = [t]"
| "trees_of_result (TreeTuple ts) = ts"

text \<open>The leaves to store for a tree \<open>c\<close> below a parent, in pre-order, with their payloads.\<close>

definition items_of :: "(string list \<Rightarrow> 'q option) \<Rightarrow> 'p tree \<Rightarrow> (string list \<times> 'q option) list" where
  "items_of g c = map (\<lambda>r. (r, g r)) (map ((#) (name c)) (rel_paths c))"

text \<open>
  The payload that the output tree \<open>i\<close> gets at the place \<open>r\<close> below the first tree \<open>h\<close>, read
  from the result map as the reconstruction reads it.
\<close>

definition out_payload ::
  "'p datatree \<Rightarrow> (string, 'p obj) dict \<Rightarrow> nat \<Rightarrow> string list \<Rightarrow> 'p option" where
  "out_payload h out_data_objects i r =
     (case output_node_data out_data_objects (abs_path h r) i of
        Inl e \<Rightarrow> None
      | Inr v \<Rightarrow> (case coerce_data v of Inl e \<Rightarrow> None | Inr x \<Rightarrow> x))"




text \<open>The key that the reconstruction computes for the place \<open>r\<close> below the first tree.\<close>

definition norm_key :: "string list \<Rightarrow> string" where
  "norm_key r =
     (if posix_str (components (join ''/'' r)) = ''.'' then ''/''
      else posix_str (components (join ''/'' r)))"

section \<open>Example trees\<close>

definition tree_A :: "nat datatree" where
  "tree_A = \<lparr>parents = [], node =
     Node ''root'' (Some 1) [Node ''x'' None [Node ''z'' (Some 3) []], Node ''y'' (Some 2) []]\<rparr>"

definition tree_B :: "nat datatree" where
  "tree_B = \<lparr>parents = [], node =
     Node ''other'' None [Node ''p'' (Some 5) [Node ''r'' None []], Node ''q'' None []]\<rparr>"

definition tree_C :: "nat datatree" where
  "tree_C = \<lparr>parents = [], node =
     Node ''third'' (Some 7) [Node ''k'' None [Node ''m'' None []], Node ''l'' (Some 9) []]\<rparr>"

definition left_tree :: "nat datatree" where
  "left_tree = \<lparr>parents = [], node = Node ''x'' None [Node ''c'' None []]\<rparr>"

definition right_tree :: "nat datatree" where
  "right_tree = \<lparr>parents = [], node = Node ''y'' None []\<rparr>"

definition none_func :: "(nat, unit) func" where
  "none_func as kws = NoneObj"

definition ident_func :: "(nat, unit) func" where
  "ident_func as kws = (case as of DatasetArg (Some p) # _ \<Rightarrow> Data p | _ \<Rightarrow> Other ''str'')"


definition tree_X :: "nat datatree" where
  "tree_X = \<lparr>parents = [node tree_A], node = Node ''x'' None [Node ''z'' (Some 3) []]\<rparr>"




section \<open>Properties of the return-value validator\<close>

text \<open>
  C1 (the validator rejects a 2-tuple next to a single payload, the first non-null result
  included). The loop starts at the second non-null result with no previous arity, so
  the arity of the first non-null result is never compared with anything: a 2-tuple at the
  first node followed by a single payload at the second is accepted, with arity 1.
\<close>

theorem check_all_return_values_skips_first:
  "check_all_return_values [(p1, Tuple [Data a, Data b]), (p2, Data c)] = Inr (Some 1)"
  by (simp add: check_all_return_values_def dict_values_def)

section \<open>Properties of the isomorphism check\<close>

lemma split_on_nonempty: "split_on c xs \<noteq> []"
  by (induction xs) (auto split: list.splits)

lemma split_on_prefix:
  "c \<notin> set pre \<Longrightarrow> split_on c (pre @ ys) = (pre @ hd (split_on c ys)) # tl (split_on c ys)"
proof (induction pre)
  case Nil
  then show ?case using split_on_nonempty[of c ys] by simp
next
  case (Cons x pre)
  then show ?case by auto
qed

lemma common_prefix_blank: "list_all is_blank xs \<Longrightarrow> list_all is_blank (common_prefix xs ys)"
  by (induction xs ys rule: common_prefix.induct) auto

lemma narrow_margin_blank:
  "list_all is_blank m \<Longrightarrow> list_all is_blank i \<Longrightarrow> list_all is_blank (narrow_margin m i)"
  by (simp add: narrow_margin_def common_prefix_blank)

lemma foldl_narrow_margin_blank:
  "list_all is_blank m \<Longrightarrow> \<forall>i \<in> set is. list_all is_blank i
   \<Longrightarrow> list_all is_blank (foldl narrow_margin m is)"
  by (induction "is" arbitrary: m) (simp_all add: narrow_margin_blank)

lemma join_nonempty: "x \<noteq> [] \<Longrightarrow> join sep (x # xs) \<noteq> []"
  by (cases xs) simp_all

lemma first_line:
  assumes "c \<noteq> nl" "nl \<notin> set pre"
  shows "\<exists>l0 ls. split_on nl (pre @ c # rest) = l0 # ls \<and> c \<in> set l0"
proof -
  have "nl \<notin> set (pre @ [c])" using assms by auto
  from split_on_prefix[OF this, of rest]
  have "split_on nl (pre @ c # rest)
      = ((pre @ [c]) @ hd (split_on nl rest)) # tl (split_on nl rest)" by simp
  then show ?thesis by auto
qed

lemma margin_of_blank: "list_all is_blank (margin_of lines)"
proof (cases "map (takeWhile is_blank) (filter (\<lambda>l. l \<noteq> []) lines)")
  case Nil
  then show ?thesis by (simp add: margin_of_def)
next
  case (Cons i "is")
  have "\<forall>j \<in> set (map (takeWhile is_blank) (filter (\<lambda>l. l \<noteq> []) lines)). list_all is_blank j"
    by (auto simp: list_all_iff dest: set_takeWhileD)
  then have "list_all is_blank i" "\<forall>j \<in> set is. list_all is_blank j"
    unfolding Cons by simp_all
  then have "list_all is_blank (foldl narrow_margin i is)" by (rule foldl_narrow_margin_blank)
  then show ?thesis by (simp add: margin_of_def Cons)
qed

lemma strip_margin_nonempty:
  assumes "c \<in> set l" "\<not> is_blank c" "list_all is_blank m"
  shows "strip_margin m l \<noteq> []"
proof (cases "m \<noteq> [] \<and> take (length m) l = m")
  case True
  then have "set l = set m \<union> set (drop (length m) l)"
    by (metis append_take_drop_id set_append)
  moreover have "c \<notin> set m" using assms(2,3) by (auto simp: list_all_iff)
  ultimately have "c \<in> set (drop (length m) l)" using assms(1) by auto
  with True show ?thesis by (auto simp: strip_margin_def)
next
  case False
  with assms(1) show ?thesis by (auto simp: strip_margin_def)
qed

lemma dedent_nonempty:
  assumes "list_all is_blank pre" "\<not> is_blank c" "c \<noteq> CHR 0x0A"
  shows "dedent (pre @ c # rest) \<noteq> []"
proof -
  have "\<not> is_blank (CHR 0x0A)" by (simp add: is_blank_def)
  then have "CHR 0x0A \<notin> set pre" using assms(1) unfolding list_all_iff by blast
  from first_line[OF assms(3) this, of rest]
  obtain l0 ls where ls: "split_on (CHR 0x0A) (pre @ c # rest) = l0 # ls" and c: "c \<in> set l0"
    by blast
  have "\<not> list_all is_blank l0" using c assms(2) by (auto simp: list_all_iff)
  then obtain ls' where lines: "blank_lines (pre @ c # rest) = l0 # ls'"
    by (simp add: blank_lines_def ls)
  have "strip_margin (margin_of (l0 # ls')) l0 \<noteq> []"
    using c assms(2) margin_of_blank by (rule strip_margin_nonempty)
  then show ?thesis
    by (simp add: dedent_def Let_def lines join_nonempty del: join.simps)
qed

lemma name_diff_msg_nonempty: "name_diff_msg pa na pb nb \<noteq> []"
proof -
  have "dedent (indent16 @ CHR ''N'' # (''ode '' @ quote @ pa @ quote @ '' in the left object has name ''
        @ quote @ na @ quote @ newline
        @ indent16 @ ''Node '' @ quote @ pb @ quote @ '' in the right object has name ''
        @ quote @ nb @ quote)) \<noteq> []"
    by (rule dedent_nonempty) (simp_all add: indent16_def is_blank_def list_all_iff)
  then show ?thesis by (simp add: name_diff_msg_def)
qed

lemma children_diff_msg_nonempty: "children_diff_msg pa na pb nb \<noteq> []"
proof -
  have "dedent (indent16 @ CHR ''N'' # (''umber of children on node '' @ quote @ pa @ quote
        @ '' of the left object: '' @ string_of_nat na @ newline
        @ indent16 @ ''Number of children on node '' @ quote @ pb @ quote
        @ '' of the right object: '' @ string_of_nat nb)) \<noteq> []"
    by (rule dedent_nonempty) (simp_all add: indent16_def is_blank_def list_all_iff)
  then show ?thesis by (simp add: children_diff_msg_def)
qed

lemma diff_pairs_empty_iff:
  "(diff_pairs rne ps = []) = (\<forall>(x, y) \<in> set ps. same_here rne x y)"
  by (induction ps)
     (auto simp: same_here_def name_diff_msg_nonempty children_diff_msg_nonempty split: if_splits)

lemma iso_unfold:
  "iso rne t u = ((rne \<longrightarrow> name t = name u) \<and> list_all2 (iso rne) (children t) (children u))"
  by (cases t; cases u) simp

lemma list_all2_concat_map:
  "list_all2 (\<lambda>x y. length (f x) = length (g y)) xs ys \<Longrightarrow>
   list_all2 P (concat (map f xs)) (concat (map g ys))
     = list_all2 (\<lambda>x y. list_all2 P (f x) (g y)) xs ys"
  by (induction xs ys rule: list_all2_induct) (simp_all add: list_all2_append)

lemma length_concat_map:
  "list_all2 (\<lambda>x y. length (f x) = length (g y)) xs ys \<Longrightarrow>
   length (concat (map f xs)) = length (concat (map g ys))"
  by (induction xs ys rule: list_all2_induct) simp_all

lemma level_order_iso:
  "length as = length bs \<Longrightarrow>
   (\<forall>(x, y) \<in> set (zip (level_order as) (level_order bs)). same_here rne x y)
   = list_all2 (\<lambda>x y. iso rne (node x) (node y)) as bs"
proof (induction as arbitrary: bs rule: level_order.induct)
  case (1 hs)
  show ?case
  proof (cases "hs = []")
    case True
    with 1 show ?thesis by (simp add: level_order.simps)
  next
    case False
    with "1.prems" have bs: "bs \<noteq> []" by auto
    let ?hs' = "concat (map tree_children hs)" and ?bs' = "concat (map tree_children bs)"
    have lo: "level_order hs = hs @ level_order ?hs'" "level_order bs = bs @ level_order ?bs'"
      using False bs by (simp_all add: level_order.simps[of hs] level_order.simps[of bs])
    have split: "(\<forall>(x, y) \<in> set (zip (level_order hs) (level_order bs)). same_here rne x y)
       = ((\<forall>(x, y) \<in> set (zip hs bs). same_here rne x y) \<and>
          (\<forall>(x, y) \<in> set (zip (level_order ?hs') (level_order ?bs')). same_here rne x y))"
      using "1.prems" by (auto simp: lo zip_append)
    show ?thesis
    proof (cases "list_all2 (same_here rne) hs bs")
      case True
      then have len: "list_all2 (\<lambda>x y. length (tree_children x) = length (tree_children y)) hs bs"
        by (auto simp: same_here_def elim: list_all2_mono)
      then have "length ?hs' = length ?bs'" by (rule length_concat_map)
      from "1.IH"[OF False this]
      have ih: "(\<forall>(x, y) \<in> set (zip (level_order ?hs') (level_order ?bs')). same_here rne x y)
          = list_all2 (\<lambda>x y. iso rne (node x) (node y)) ?hs' ?bs'" .
      have "list_all2 (\<lambda>x y. iso rne (node x) (node y)) ?hs' ?bs'
          = list_all2 (\<lambda>x y. list_all2 (\<lambda>x y. iso rne (node x) (node y))
                (tree_children x) (tree_children y)) hs bs"
        using len by (rule list_all2_concat_map)
      also have "\<dots> = list_all2 (\<lambda>x y. list_all2 (iso rne) (children (node x)) (children (node y))) hs bs"
        by (simp add: tree_children_def list_all2_map1 list_all2_map2)
      also have "\<dots> = list_all2 (\<lambda>x y. iso rne (node x) (node y)) hs bs"
        using True
        by (auto simp: list_all2_conv_all_nth same_here_def iso_unfold[of rne "node _" "node _"])
      finally have "list_all2 (\<lambda>x y. iso rne (node x) (node y)) ?hs' ?bs'
          = list_all2 (\<lambda>x y. iso rne (node x) (node y)) hs bs" .
      moreover have "\<forall>(x, y) \<in> set (zip hs bs). same_here rne x y"
        using True by (auto simp: list_all2_iff)
      ultimately show ?thesis using split ih by simp
    next
      case nok: False
      then have "\<not> (\<forall>(x, y) \<in> set (zip hs bs). same_here rne x y)"
        using "1.prems" by (auto simp: list_all2_iff)
      moreover have "\<not> list_all2 (\<lambda>x y. iso rne (node x) (node y)) hs bs"
      proof
        assume "list_all2 (\<lambda>x y. iso rne (node x) (node y)) hs bs"
        then have "list_all2 (same_here rne) hs bs"
          by (rule list_all2_mono)
             (auto simp: same_here_def tree_children_def iso_unfold[of rne "node _" "node _"]
                   dest: list_all2_lengthD)
        with nok show False by simp
      qed
      ultimately show ?thesis using split by simp
    qed
  qed
qed

lemma diff_treestructure_iso:
  "(diff_treestructure a b rne = []) = iso rne (node a) (node b)"
  using level_order_iso[of "[a]" "[b]" rne]
  by (simp add: diff_treestructure_def LevelOrderIter_def diff_pairs_empty_iff)

lemma iso_refl: "iso rne t t"
  by (induction t) (simp add: list_all2_same)

lemma iso_sym: "iso rne t u \<Longrightarrow> iso rne u t"
proof (induction t arbitrary: u)
  case (Node n d cs)
  obtain n' d' cs' where u: "u = Node n' d' cs'" by (cases u)
  with Node.prems have nm: "rne \<longrightarrow> n = n'" and l: "list_all2 (iso rne) cs cs'" by simp_all
  have "list_all2 (iso rne) cs' cs"
    unfolding list_all2_conv_all_nth
  proof (intro conjI allI impI)
    show "length cs' = length cs" using l by (simp add: list_all2_lengthD)
  next
    fix i assume "i < length cs'"
    then have i: "i < length cs" using l by (simp add: list_all2_lengthD)
    then have "iso rne (cs ! i) (cs' ! i)" using l by (simp add: list_all2_conv_all_nth)
    moreover have "cs ! i \<in> set cs" using i by simp
    ultimately show "iso rne (cs' ! i) (cs ! i)" by (rule Node.IH[rotated])
  qed
  with nm u show ?case by auto
qed

lemma iso_trans: "iso rne t u \<Longrightarrow> iso rne u v \<Longrightarrow> iso rne t v"
proof (induction t arbitrary: u v)
  case (Node n d cs)
  obtain n' d' cs' where u: "u = Node n' d' cs'" by (cases u)
  obtain n'' d'' cs'' where v: "v = Node n'' d'' cs''" by (cases v)
  from Node.prems u v have nm: "rne \<longrightarrow> n = n''"
    and l1: "list_all2 (iso rne) cs cs'" and l2: "list_all2 (iso rne) cs' cs''" by simp_all
  have "list_all2 (iso rne) cs cs''"
    unfolding list_all2_conv_all_nth
  proof (intro conjI allI impI)
    show "length cs = length cs''" using l1 l2 by (simp add: list_all2_lengthD)
  next
    fix i assume i: "i < length cs"
    then have h: "iso rne (cs ! i) (cs' ! i)" "iso rne (cs' ! i) (cs'' ! i)"
      using l1 l2 by (simp_all add: list_all2_conv_all_nth)
    have m: "cs ! i \<in> set cs" using i by simp
    show "iso rne (cs ! i) (cs'' ! i)" by (rule Node.IH[OF m h])
  qed
  with nm u v show ?case by simp
qed

lemma iso_tree_size: "iso rne t u \<Longrightarrow> tree_size t = tree_size u"
proof (induction t arbitrary: u)
  case (Node n d cs)
  obtain n' d' cs' where u: "u = Node n' d' cs'" by (cases u)
  with Node.prems have l: "list_all2 (iso rne) cs cs'" by simp
  have "map tree_size cs = map tree_size cs'"
  proof (rule nth_equalityI)
    show "length (map tree_size cs) = length (map tree_size cs')"
      using l by (simp add: list_all2_lengthD)
  next
    fix i assume "i < length (map tree_size cs)"
    then have i: "i < length cs" by simp
    then have "iso rne (cs ! i) (cs' ! i)" using l by (simp add: list_all2_conv_all_nth)
    moreover have "cs ! i \<in> set cs" using i by simp
    ultimately have "tree_size (cs ! i) = tree_size (cs' ! i)" by (rule Node.IH[rotated])
    with i l show "map tree_size cs ! i = map tree_size cs' ! i"
      by (simp add: list_all2_lengthD)
  qed
  with u show ?case by simp
qed

text \<open>
  C6 (reflexivity): checking a tree against itself never fails, whatever
  \<open>require_names_equal\<close> and \<open>check_from_root\<close> are.
\<close>

theorem check_isomorphic_refl:
  "check_isomorphic (TreeArg A) (TreeArg A) require_names_equal check_from_root = Inr ()"
  by (simp add: check_isomorphic_def Let_def diff_treestructure_iso iso_refl)

text \<open>
  C7 (transitivity): if the check of \<open>a\<close> against \<open>b\<close> and the check of \<open>b\<close> against
  \<open>c\<close> both succeed, with the same settings, then so does the check of \<open>a\<close> against \<open>c\<close>.
\<close>

theorem check_isomorphic_trans:
  assumes "check_isomorphic a b require_names_equal check_from_root = Inr ()"
    and "check_isomorphic b c require_names_equal check_from_root = Inr ()"
  shows "check_isomorphic a c require_names_equal check_from_root = Inr ()"
proof -
  from assms(1) obtain ta tb where a: "a = TreeArg ta" and b: "b = TreeArg tb"
    by (auto simp: check_isomorphic_def split: arg.splits)
  from assms(2) obtain tc where c: "c = TreeArg tc"
    by (auto simp: check_isomorphic_def split: arg.splits)
  let ?r = "\<lambda>t. if check_from_root then tree_root t else t"
  from assms(1) a b have "iso require_names_equal (node (?r ta)) (node (?r tb))"
    by (simp add: check_isomorphic_def Let_def diff_treestructure_iso split: if_splits)
  moreover from assms(2) b c have "iso require_names_equal (node (?r tb)) (node (?r tc))"
    by (simp add: check_isomorphic_def Let_def diff_treestructure_iso split: if_splits)
  ultimately have "iso require_names_equal (node (?r ta)) (node (?r tc))"
    by (rule iso_trans)
  with a c show ?thesis
    by (simp add: check_isomorphic_def Let_def diff_treestructure_iso)
qed


theorem check_isomorphic_trans_witness:
  "check_isomorphic (TreeArg tree_A) (TreeArg tree_B :: (nat, unit) arg) False False = Inr ()
   \<and> check_isomorphic (TreeArg tree_B) (TreeArg tree_C :: (nat, unit) arg) False False = Inr ()
   \<and> check_isomorphic (TreeArg tree_A) (TreeArg tree_C :: (nat, unit) arg) False False = Inr ()"
proof -
  have ab: "check_isomorphic (TreeArg tree_A) (TreeArg tree_B :: (nat, unit) arg) False False = Inr ()"
    by (simp add: check_isomorphic_def Let_def diff_treestructure_iso tree_A_def tree_B_def)
  have bc: "check_isomorphic (TreeArg tree_B) (TreeArg tree_C :: (nat, unit) arg) False False = Inr ()"
    by (simp add: check_isomorphic_def Let_def diff_treestructure_iso tree_B_def tree_C_def)
  from check_isomorphic_trans[OF ab bc] ab bc show ?thesis by simp
qed

lemma level_order_Nil: "level_order [] = []"
  by (simp add: level_order.simps)

lemma level_order_Cons:
  "level_order (h # hs) = (h # hs) @ level_order (concat (map tree_children (h # hs)))"
  by (simp add: level_order.simps[of "h # hs"])

section \<open>Properties of the traversal\<close>

lemma length_subtree_from: "length (subtree_from ps t) = tree_size t"
proof (induction t arbitrary: ps)
  case (Node n d cs)
  have m: "map (\<lambda>c. length (subtree_from (Node n d cs # ps) c)) cs = map tree_size cs"
    using Node.IH by simp
  have "length (concat (map (subtree_from (Node n d cs # ps)) cs))
      = sum_list (map (\<lambda>c. length (subtree_from (Node n d cs # ps) c)) cs)"
    by (simp add: length_concat comp_def)
  also have "\<dots> = sum_list (map tree_size cs)" by (simp only: m)
  finally show ?case by simp
qed

lemma length_subtree: "length (subtree h) = tree_size (node h)"
  by (simp add: subtree_def length_subtree_from)

lemma check_other_trees_iso:
  "check_other_trees first_tree others = Inr () \<Longrightarrow>
   \<forall>t \<in> set others. iso False (node first_tree) (node t)"
proof (induction others)
  case Nil
  then show ?case by simp
next
  case (Cons t ts)
  from Cons.prems have 1: "check_isomorphic (TreeArg first_tree :: ('a, unit) arg) (TreeArg t) False False = Inr ()"
    and 2: "check_other_trees first_tree ts = Inr ()"
    by (auto split: sum.splits)
  from 1 have "iso False (node first_tree) (node t)"
    by (simp add: check_isomorphic_def Let_def diff_treestructure_iso split: if_splits)
  with Cons.IH[OF 2] show ?case by simp
qed

lemma next_all_long_enough:
  "\<forall>it \<in> set its. long_enough (Suc n) it \<Longrightarrow>
   \<exists>row its'. next_all its = Some (row, its') \<and> (\<forall>it \<in> set its'. long_enough n it)"
proof (induction its)
  case Nil
  then show ?case by simp
next
  case (Cons it its)
  then obtain row its' where r: "next_all its = Some (row, its')"
    and l: "\<forall>it \<in> set its'. long_enough n it" by auto
  from Cons.prems have "long_enough (Suc n) it" by simp
  then obtain x it' where "next_item it = Some (x, it')" "long_enough n it'"
    by (cases it rule: next_item.cases) auto
  with r l show ?case by simp
qed

lemma zip_iterables_fst:
  "\<forall>it \<in> set its. long_enough (length ns) it \<Longrightarrow> map fst (zip_iterables ns its) = ns"
proof (induction ns arbitrary: its)
  case Nil
  then show ?case by simp
next
  case (Cons n ns)
  from next_all_long_enough[of its "length ns"] Cons.prems
  obtain row its' where r: "next_all its = Some (row, its')"
    and l: "\<forall>it \<in> set its'. long_enough (length ns) it" by auto
  from Cons.IH[OF l] r show ?case by simp
qed

lemma trees_of_iso:
  assumes "all_tree_inputs args kwargs = first_tree # other_trees"
    and "check_other_trees first_tree other_trees = Inr ()"
  shows "\<forall>t \<in> set (trees_of args) \<union> set (trees_of (dict_values kwargs)).
           iso False (node first_tree) (node t)"
proof -
  have "set (trees_of args) \<union> set (trees_of (dict_values kwargs)) = set (first_tree # other_trees)"
    using assms(1) by (simp add: all_tree_inputs_def flip: set_append)
  with check_other_trees_iso[OF assms(2)] show ?thesis by (auto simp: iso_refl)
qed

lemma as_iterable_long_enough:
  "\<forall>t \<in> set (trees_of as). tree_size (node t) = k \<Longrightarrow>
   \<forall>it \<in> set (map as_iterable as). long_enough k it"
  by (induction as rule: trees_of.induct) (simp_all add: length_subtree)

lemma rows_cover:
  assumes "all_tree_inputs args kwargs = first_tree # other_trees"
    and "check_other_trees first_tree other_trees = Inr ()"
  shows "map fst (zip_iterables (subtree first_tree)
            (map as_iterable args @ map as_iterable (dict_values kwargs))) = subtree first_tree"
proof -
  let ?k = "tree_size (node first_tree)"
  from trees_of_iso[OF assms]
  have "\<forall>t \<in> set (trees_of args) \<union> set (trees_of (dict_values kwargs)).
          tree_size (node t) = ?k"
    using iso_tree_size by fastforce
  then have "\<forall>it \<in> set (map as_iterable args @ map as_iterable (dict_values kwargs)).
      long_enough ?k it"
    using as_iterable_long_enough[of args ?k] as_iterable_long_enough[of "dict_values kwargs" ?k]
    by auto
  then show ?thesis by (intro zip_iterables_fst) (simp add: length_subtree)
qed

lemma dict_set_fresh: "k \<notin> fst ` set d \<Longrightarrow> dict_set k v d = d @ [(k, v)]"
  by (induction d) auto

lemma dict_set_present_keys: "k \<in> fst ` set d \<Longrightarrow> map fst (dict_set k v d) = map fst d"
  by (induction d) force+

lemma dict_keys_dict_set:
  "dict_keys (dict_set k v d) = (if k \<in> set (dict_keys d) then dict_keys d else dict_keys d @ [k])"
  by (simp add: dict_keys_def dict_set_present_keys dict_set_fresh)

lemma foldl_dict_set_keys:
  "set (dict_keys (foldl (\<lambda>d (k, v). dict_set k v d) d kvs)) = set (dict_keys d) \<union> fst ` set kvs"
  by (induction kvs arbitrary: d) (auto simp: dict_keys_dict_set split: if_splits)

lemma foldl_dict_set_distinct:
  "distinct (dict_keys d) \<Longrightarrow> distinct (dict_keys (foldl (\<lambda>d (k, v). dict_set k v d) d kvs))"
  by (induction kvs arbitrary: d) (auto simp: dict_keys_dict_set)

lemma foldl_dict_set_fresh:
  "distinct (map fst (d @ kvs)) \<Longrightarrow> foldl (\<lambda>d (k, v). dict_set k v d) d kvs = d @ kvs"
proof (induction kvs arbitrary: d)
  case Nil
  then show ?case by simp
next
  case (Cons kv kvs)
  obtain k v where kv: "kv = (k, v)" by (cases kv)
  with Cons.prems have "k \<notin> fst ` set d" by auto
  then have "dict_set k v d = d @ [(k, v)]" by (rule dict_set_fresh)
  moreover have "distinct (map fst ((d @ [(k, v)]) @ kvs))" using Cons.prems kv by simp
  ultimately show ?case using Cons.IH[of "d @ [(k, v)]"] kv by simp
qed

lemma dict_of_items_distinct: "distinct (map fst kvs) \<Longrightarrow> dict_of_items kvs = kvs"
  using foldl_dict_set_fresh[of "[]" kvs] by (simp add: dict_of_items_def)

lemma dict_of_items_keys: "set (dict_keys (dict_of_items kvs)) = fst ` set kvs"
  using foldl_dict_set_keys[of "[]" kvs] by (simp add: dict_of_items_def dict_keys_def)

lemma dict_of_items_keys_distinct: "distinct (dict_keys (dict_of_items kvs))"
  using foldl_dict_set_distinct[of "[]" kvs] by (simp add: dict_of_items_def dict_keys_def)

lemma traverse_step_recorded:
  "traverse_step n_args keys d row = dict_set (fst (recorded n_args keys row)) (snd (recorded n_args keys row)) d"
  by (cases row) (simp add: traverse_step_def recorded_def node_call_def Let_def)

lemma traverse_dict_of_items:
  "traverse first_tree args kwargs
   = dict_of_items (map (recorded (length args) (dict_keys kwargs)) (node_rows first_tree args kwargs))"
proof -
  have "foldl (traverse_step n ks) d rows
      = foldl (\<lambda>d (k, v). dict_set k v d) d (map (recorded n ks) rows)" for n ks d
    and rows :: "('a datatree \<times> ('a, 'b) arg list) list"
    by (induction rows arbitrary: d) (simp_all add: traverse_step_recorded split_beta)
  then show ?thesis by (simp add: traverse_def dict_of_items_def node_rows_def)
qed

lemma node_rows_fst:
  assumes "all_tree_inputs args kwargs = first_tree # other_trees"
    and "check_other_trees first_tree other_trees = Inr ()"
  shows "map fst (node_rows first_tree args kwargs) = subtree first_tree"
  unfolding node_rows_def using assms by (rule rows_cover)

lemma recorded_paths:
  "map fst (map (recorded n ks) rows) = map tree_path (map fst rows)"
  by (simp add: recorded_def)

lemma traverse_keys:
  assumes "all_tree_inputs args kwargs = first_tree # other_trees"
    and "check_other_trees first_tree other_trees = Inr ()"
  shows "set (dict_keys (traverse first_tree args kwargs)) = set (map tree_path (subtree first_tree))"
proof -
  have "set (dict_keys (traverse first_tree args kwargs))
      = set (map fst (map (recorded (length args) (dict_keys kwargs)) (node_rows first_tree args kwargs)))"
    by (simp add: traverse_dict_of_items dict_of_items_keys image_image)
  also have "\<dots> = set (map tree_path (map fst (node_rows first_tree args kwargs)))"
    by (simp only: recorded_paths)
  finally show ?thesis by (simp only: node_rows_fst[OF assms])
qed

lemma dask_compute_eq:
  "distinct (dict_keys d) \<Longrightarrow> dask_compute func d = map (\<lambda>(k, v). (k, compute1 func v)) d"
proof -
  assume dist: "distinct (dict_keys d)"
  have z: "zip (dict_keys d) (map (compute1 func) (dict_values d)) = map (\<lambda>(k, v). (k, compute1 func v)) d"
    by (induction d) (auto simp: dict_keys_def dict_values_def)
  have "distinct (map fst (map (\<lambda>(k, v). (k, compute1 func v)) d))"
    using dist by (simp add: dict_keys_def comp_def split_beta)
  then show ?thesis by (simp add: dask_compute_def z dict_of_items_distinct)
qed

lemma dask_compute_traverse:
  "dask_compute func (traverse first_tree args kwargs)
   = map (\<lambda>(k, v). (k, compute1 func v)) (traverse first_tree args kwargs)"
  by (rule dask_compute_eq) (simp add: traverse_dict_of_items dict_of_items_keys_distinct)

lemma dask_compute_keys:
  "dict_keys (dask_compute func (traverse first_tree args kwargs))
   = dict_keys (traverse first_tree args kwargs)"
  by (simp add: dask_compute_traverse dict_keys_def comp_def split_beta)

text \<open>
  C10: after the traversal the result map has an entry for every path of the pre-order
  traversal of the first tree (and for no other path), resolving the deferred calls leaves
  the keys as they are, and so the lookup of every such path during the reconstruction
  finds an entry.
\<close>

theorem result_map_covers_traversal:
  assumes "all_tree_inputs args kwargs = first_tree # other_trees"
    and "check_other_trees first_tree other_trees = Inr ()"
  shows "set (dict_keys (traverse first_tree args kwargs)) = set (map tree_path (subtree first_tree))
    \<and> dict_keys (dask_compute func (traverse first_tree args kwargs))
        = dict_keys (traverse first_tree args kwargs)
    \<and> (\<forall>n \<in> set (subtree first_tree).
          map_of (dask_compute func (traverse first_tree args kwargs)) (tree_path n) \<noteq> None)"
proof (intro conjI ballI)
  show k: "set (dict_keys (traverse first_tree args kwargs)) = set (map tree_path (subtree first_tree))"
    using assms by (rule traverse_keys)
  show "dict_keys (dask_compute func (traverse first_tree args kwargs))
        = dict_keys (traverse first_tree args kwargs)"
    by (rule dask_compute_keys)
  fix n assume "n \<in> set (subtree first_tree)"
  then have "tree_path n \<in> set (dict_keys (dask_compute func (traverse first_tree args kwargs)))"
    using k by (simp add: dask_compute_keys)
  then show "map_of (dask_compute func (traverse first_tree args kwargs)) (tree_path n) \<noteq> None"
    by (simp add: map_of_eq_None_iff dict_keys_def)
qed

lemma traverse_distinct:
  assumes "all_tree_inputs args kwargs = first_tree # other_trees"
    and "check_other_trees first_tree other_trees = Inr ()"
    and "distinct (map tree_path (subtree first_tree))"
  shows "traverse first_tree args kwargs
     = map (recorded (length args) (dict_keys kwargs)) (node_rows first_tree args kwargs)"
proof -
  have "distinct (map fst (map (recorded (length args) (dict_keys kwargs)) (node_rows first_tree args kwargs)))"
    using assms(3) by (simp only: recorded_paths node_rows_fst[OF assms(1,2)])
  then show ?thesis by (simp add: traverse_dict_of_items dict_of_items_distinct)
qed

lemma map_over_subtree_reached:
  assumes "all_tree_inputs args kwargs = first_tree # other_trees"
    and "check_other_trees first_tree other_trees = Inr ()"
  shows "map_over_subtree func args kwargs =
     (calls_of (dict_values (traverse first_tree args kwargs)),
      case check_all_return_values (dask_compute func (traverse first_tree args kwargs)) of
        Inl e \<Rightarrow> Inl e
      | Inr None \<Rightarrow> Inl (TypeError ''NoneType object cannot be interpreted as an integer'')
      | Inr (Some num_return_values) \<Rightarrow>
          (case build_trees first_tree (dask_compute func (traverse first_tree args kwargs))
                  [0..<num_return_values] of
             Inl e \<Rightarrow> Inl e
           | Inr result_trees \<Rightarrow>
               (case result_trees of
                  [t] \<Rightarrow> Inr (SingleTree t)
                | _ \<Rightarrow> Inr (TreeTuple result_trees))))"
  using assms by (simp add: map_over_subtree_def Let_def)

lemma map_over_subtree_success:
  assumes "snd (map_over_subtree func args kwargs) = Inr res"
  shows "\<exists>first_tree other_trees. all_tree_inputs args kwargs = first_tree # other_trees
     \<and> check_other_trees first_tree other_trees = Inr ()"
  using assms by (auto simp: map_over_subtree_def split: list.splits sum.splits)

text \<open>
  C8: when the traversal is reached and every recorded result is \<open>None\<close>, the call raises
  the all-\<open>None\<close> error, so no output tree is built; and a call that succeeds has a result
  other than \<open>None\<close> at some visited node.
\<close>

theorem all_none_raises:
  "(all_tree_inputs args kwargs = first_tree # other_trees
     \<and> check_other_trees first_tree other_trees = Inr ()
     \<and> list_all (\<lambda>r. r = NoneObj) (dict_values (dask_compute func (traverse first_tree args kwargs)))
     \<longrightarrow> snd (map_over_subtree func args kwargs) = Inl (TypeError all_none_msg))
   \<and> (snd (map_over_subtree func args kwargs) = Inr res
     \<longrightarrow> (\<exists>first_tree other_trees. all_tree_inputs args kwargs = first_tree # other_trees
           \<and> (\<exists>r \<in> set (dict_values (dask_compute func (traverse first_tree args kwargs))).
                 r \<noteq> NoneObj)))"
proof (intro conjI impI)
  assume a: "all_tree_inputs args kwargs = first_tree # other_trees
     \<and> check_other_trees first_tree other_trees = Inr ()
     \<and> list_all (\<lambda>r. r = NoneObj) (dict_values (dask_compute func (traverse first_tree args kwargs)))"
  then show "snd (map_over_subtree func args kwargs) = Inl (TypeError all_none_msg)"
    by (simp add: map_over_subtree_reached[of args kwargs first_tree other_trees]
        check_all_return_values_def)
next
  assume s: "snd (map_over_subtree func args kwargs) = Inr res"
  from map_over_subtree_success[OF s] obtain first_tree other_trees
    where i: "all_tree_inputs args kwargs = first_tree # other_trees"
      and c: "check_other_trees first_tree other_trees = Inr ()" by blast
  have "\<not> list_all (\<lambda>r. r = NoneObj) (dict_values (dask_compute func (traverse first_tree args kwargs)))"
  proof
    assume "list_all (\<lambda>r. r = NoneObj) (dict_values (dask_compute func (traverse first_tree args kwargs)))"
    then have "snd (map_over_subtree func args kwargs) = Inl (TypeError all_none_msg)"
      by (simp add: map_over_subtree_reached[OF i c] check_all_return_values_def)
    with s show False by simp
  qed
  then have "\<exists>r \<in> set (dict_values (dask_compute func (traverse first_tree args kwargs))). r \<noteq> NoneObj"
    by (simp add: list_all_iff)
  with i show "\<exists>first_tree other_trees. all_tree_inputs args kwargs = first_tree # other_trees
           \<and> (\<exists>r \<in> set (dict_values (dask_compute func (traverse first_tree args kwargs))).
                 r \<noteq> NoneObj)" by blast
qed

lemma calls_of_map:
  "calls_of (map (\<lambda>row. snd (recorded n ks row)) rows)
   = map (\<lambda>row. node_call n ks (snd row)) (filter (\<lambda>row. \<not> is_empty (fst row)) rows)"
  by (induction rows) (simp_all add: recorded_def)

lemma traversal_calls_and_results:
  assumes "all_tree_inputs args kwargs = first_tree # other_trees"
    and "check_other_trees first_tree other_trees = Inr ()"
    and "distinct (map tree_path (subtree first_tree))"
  shows "fst (map_over_subtree func args kwargs)
       = map (\<lambda>row. node_call (length args) (dict_keys kwargs) (snd row))
           (filter (\<lambda>row. \<not> is_empty (fst row)) (node_rows first_tree args kwargs))"
    and "dask_compute func (traverse first_tree args kwargs)
       = map (\<lambda>row. (tree_path (fst row),
                      if is_empty (fst row) then NoneObj
                      else func (fst (node_call (length args) (dict_keys kwargs) (snd row)))
                             (snd (node_call (length args) (dict_keys kwargs) (snd row)))))
           (node_rows first_tree args kwargs)"
proof -
  let ?rows = "node_rows first_tree args kwargs"
  have t: "traverse first_tree args kwargs = map (recorded (length args) (dict_keys kwargs)) ?rows"
    using assms by (rule traverse_distinct)
  show "fst (map_over_subtree func args kwargs)
       = map (\<lambda>row. node_call (length args) (dict_keys kwargs) (snd row))
           (filter (\<lambda>row. \<not> is_empty (fst row)) ?rows)"
    using calls_of_map[of "length args" "dict_keys kwargs" ?rows]
    by (simp add: map_over_subtree_reached[OF assms(1,2)] t dict_values_def comp_def)
  show "dask_compute func (traverse first_tree args kwargs)
       = map (\<lambda>row. (tree_path (fst row),
                      if is_empty (fst row) then NoneObj
                      else func (fst (node_call (length args) (dict_keys kwargs) (snd row)))
                             (snd (node_call (length args) (dict_keys kwargs) (snd row)))))
           ?rows"
    by (simp add: dask_compute_traverse) (simp add: t recorded_def)
qed

lemma inputs_AB: "all_tree_inputs [TreeArg tree_A, TreeArg tree_B :: (nat, unit) arg] [] = tree_A # [tree_B]"
  by (simp add: all_tree_inputs_def dict_values_def)

lemma check_AB: "check_other_trees tree_A [tree_B] = Inr ()"
  by (simp add: check_isomorphic_def Let_def diff_treestructure_iso tree_A_def tree_B_def)

lemma inputs_A: "all_tree_inputs [TreeArg tree_A :: (nat, unit) arg] [] = tree_A # []"
  by (simp add: all_tree_inputs_def dict_values_def)

lemma paths_A: "map tree_path (subtree tree_A) = [''/'', ''/x'', ''/x/z'', ''/y'']"
  by (simp add: tree_A_def subtree_def tree_path_def ancestry_def)

theorem result_map_covers_traversal_witness:
  "all_tree_inputs [TreeArg tree_A, TreeArg tree_B :: (nat, unit) arg] [] = tree_A # [tree_B]
   \<and> check_other_trees tree_A [tree_B] = Inr ()
   \<and> set (dict_keys (traverse tree_A [TreeArg tree_A, TreeArg tree_B :: (nat, unit) arg] []))
        = {''/'', ''/x'', ''/x/z'', ''/y''}
   \<and> list_all (\<lambda>n.
         map_of (dask_compute ident_func (traverse tree_A [TreeArg tree_A, TreeArg tree_B] []))
           (tree_path n) \<noteq> None) (subtree tree_A)"
  using result_map_covers_traversal[OF inputs_AB check_AB, of ident_func] inputs_AB check_AB
  by (simp add: paths_A list_all_iff)

lemma check_A: "check_other_trees tree_A [] = Inr ()"
  by simp

lemma all_none_A:
  "list_all (\<lambda>r. r = NoneObj) (dict_values (dask_compute none_func (traverse tree_A [TreeArg tree_A] [])))"
proof -
  have d: "distinct (map tree_path (subtree tree_A))" by (simp add: paths_A)
  have c: "compute1 none_func (snd (recorded n ks row)) = NoneObj" for n ks
    and row :: "nat datatree \<times> (nat, unit) arg list"
    by (simp add: recorded_def none_func_def)
  show ?thesis
    unfolding dask_compute_traverse
    by (simp add: traverse_distinct[OF inputs_A check_A d]
        dict_values_def list_all_iff split_beta c)
qed

lemma ident_A:
  "snd (map_over_subtree ident_func [TreeArg tree_A] []) = Inr (SingleTree tree_A)"
  by code_simp

theorem all_none_raises_witness:
  "all_tree_inputs [TreeArg tree_A :: (nat, unit) arg] [] = tree_A # []
   \<and> check_other_trees tree_A [] = Inr ()
   \<and> list_all (\<lambda>r. r = NoneObj)
        (dict_values (dask_compute none_func (traverse tree_A [TreeArg tree_A] [])))
   \<and> snd (map_over_subtree none_func [TreeArg tree_A] []) = Inl (TypeError all_none_msg)
   \<and> snd (map_over_subtree ident_func [TreeArg tree_A] []) = Inr (SingleTree tree_A)
   \<and> \<not> list_all (\<lambda>r. r = NoneObj)
        (dict_values (dask_compute ident_func (traverse tree_A [TreeArg tree_A] [])))"
  using all_none_raises[of "[TreeArg tree_A]" "[]" tree_A "[]" none_func]
    all_none_raises[of "[TreeArg tree_A]" "[]" _ _ ident_func "SingleTree tree_A"]
    inputs_A check_A all_none_A ident_A
  by (auto simp: list_all_iff)

section \<open>Properties of paths\<close>

lemma tree_path_abs: "tree_path h = abs_path h []"
  by (simp add: tree_path_def abs_path_def)

lemma ancestry_child:
  "ancestry \<lparr>parents = t # ps, node = c\<rparr> = ancestry \<lparr>parents = ps, node = t\<rparr> @ [name c]"
  by (cases "ps = []") (simp_all add: ancestry_def)

lemma subtree_from_paths:
  "map tree_path (subtree_from ps t)
   = map (abs_path \<lparr>parents = ps, node = t\<rparr>) (rel_paths t)"
proof (induction t arbitrary: ps)
  case (Node n d cs)
  let ?t = "Node n d cs"
  have "map tree_path (subtree_from (?t # ps) c)
      = map (abs_path \<lparr>parents = ps, node = ?t\<rparr>) (map ((#) (name c)) (rel_paths c))"
    if "c \<in> set cs" for c
    using Node.IH[OF that, of "?t # ps"] by (simp add: abs_path_def ancestry_child comp_def)
  then have m: "map (\<lambda>c. map tree_path (subtree_from (?t # ps) c)) cs
      = map (\<lambda>c. map (abs_path \<lparr>parents = ps, node = ?t\<rparr>) (map ((#) (name c)) (rel_paths c))) cs"
    by simp
  have "map tree_path (subtree_from ps ?t)
      = tree_path \<lparr>parents = ps, node = ?t\<rparr>
        # concat (map (\<lambda>c. map tree_path (subtree_from (?t # ps) c)) cs)"
    by (simp add: map_concat comp_def)
  also have "\<dots> = tree_path \<lparr>parents = ps, node = ?t\<rparr>
        # concat (map (\<lambda>c. map (abs_path \<lparr>parents = ps, node = ?t\<rparr>)
                              (map ((#) (name c)) (rel_paths c))) cs)"
    by (simp only: m)
  also have "\<dots> = map (abs_path \<lparr>parents = ps, node = ?t\<rparr>) (rel_paths ?t)"
    by (simp add: map_concat comp_def tree_path_def abs_path_def)
  finally show ?case .
qed

lemma subtree_paths: "map tree_path (subtree h) = map (abs_path h) (rel_paths (node h))"
  using subtree_from_paths[of "parents h" "node h"] by (cases h) (simp add: subtree_def)


lemma split_on_append: "split_on c (xs @ c # ys) = split_on c xs @ split_on c ys"
proof (induction xs)
  case Nil
  then show ?case by simp
next
  case (Cons x xs)
  obtain w ws where "split_on c xs = w # ws"
    using split_on_nonempty[of c xs] by (cases "split_on c xs") auto
  with Cons show ?case by simp
qed

lemma split_on_no_sep: "c \<notin> set xs \<Longrightarrow> split_on c xs = [xs]"
  by (induction xs) auto

lemma components_append:
  "components (xs @ ''/'' @ ys) = components xs @ components ys"
  by (simp add: components_def split_on_append)

lemma components_valid: "valid_name n \<Longrightarrow> components n = [n]"
  by (simp add: components_def valid_name_def split_on_no_sep)

lemma components_Nil: "components [] = []"
  by (simp add: components_def)

lemma join_append:
  "a \<noteq> [] \<Longrightarrow> r \<noteq> [] \<Longrightarrow> join sep (a @ r) = join sep a @ sep @ join sep r"
  by (induction sep a rule: join.induct) (auto simp: neq_Nil_conv)

lemma components_join_append:
  "components (join ''/'' (a @ r)) = components (join ''/'' a) @ components (join ''/'' r)"
proof (cases "a = [] \<or> r = []")
  case True
  then show ?thesis by (auto simp: components_Nil)
next
  case False
  then show ?thesis by (simp add: join_append components_append del: append_Cons)
qed

lemma components_join_valid:
  "list_all valid_name r \<Longrightarrow> components (join ''/'' r) = r"
proof (induction r)
  case Nil
  then show ?case by (simp add: components_Nil)
next
  case (Cons n r)
  have "components (join ''/'' ([n] @ r)) = components (join ''/'' [n]) @ components (join ''/'' r)"
    by (rule components_join_append)
  with Cons show ?case by (simp add: components_valid)
qed

lemma posix_parts_abs: "posix_parts (''/'' @ s) = ''/'' # components s"
  by (simp add: posix_parts_def components_def)

lemma posix_parts_abs_path:
  "list_all valid_name r \<Longrightarrow> posix_parts (abs_path h r) = posix_parts (abs_path h []) @ r"
  unfolding abs_path_def posix_parts_abs
  by (simp add: components_join_append components_join_valid del: append_Cons)

lemma join_valid_not_dot:
  assumes "list_all valid_name r" "r \<noteq> []"
  shows "join ''/'' r \<noteq> ''.''" "join ''/'' r \<noteq> ''/''" "join ''/'' r \<noteq> []"
proof -
  have c: "components (join ''/'' r) = r" using assms(1) by (rule components_join_valid)
  show "join ''/'' r \<noteq> ''.''" using c assms(2) by (auto simp: components_def)
  show "join ''/'' r \<noteq> ''/''" using c assms(2) by (auto simp: components_def)
  show "join ''/'' r \<noteq> []" using c assms(2) by (auto simp: components_def)
qed

lemma posix_str_valid:
  assumes "list_all valid_name r" "r \<noteq> []"
  shows "posix_str r = join ''/'' r"
proof -
  obtain p ps where r: "r = p # ps" using assms(2) by (cases r) auto
  with assms(1) have "p \<noteq> ''/''" by (auto simp: valid_name_def)
  with r show ?thesis by simp
qed

lemma relative_path_abs:
  assumes "list_all valid_name r"
  shows "relative_path (abs_path h r) (tree_path h) = Inr (rel_key r)"
proof (cases "r = []")
  case True
  then show ?thesis
    by (simp add: relative_path_def relative_to_def tree_path_abs rel_key_def)
next
  case False
  have "relative_to (posix_parts (abs_path h r)) (posix_parts (tree_path h)) = Inr r"
    by (simp add: posix_parts_abs_path[OF assms] tree_path_abs relative_to_def)
  then show ?thesis
    using False posix_str_valid[OF assms False] join_valid_not_dot[OF assms False]
    by (simp add: relative_path_def rel_key_def)
qed

lemma rel_key_inj:
  assumes "list_all valid_name r" "list_all valid_name s" "rel_key r = rel_key s"
  shows "r = s"
proof -
  have c: "components (rel_key x) = x" if "list_all valid_name x" for x
  proof (cases "x = []")
    case True
    then show ?thesis by (simp add: rel_key_def components_def)
  next
    case False
    with that show ?thesis by (simp add: rel_key_def components_join_valid)
  qed
  have "r = components (rel_key r)" by (rule c[OF assms(1), symmetric])
  also have "\<dots> = components (rel_key s)" by (simp only: assms(3))
  also have "\<dots> = s" by (rule c[OF assms(2)])
  finally show ?thesis .
qed


section \<open>Properties of the reconstruction\<close>

lemma valid_tree_children:
  "valid_tree t \<Longrightarrow> c \<in> set (children t) \<Longrightarrow> valid_name (name c) \<and> valid_tree c"
  by (cases t) (auto simp: list_all_iff)

lemma rel_paths_valid:
  "valid_tree t \<Longrightarrow> r \<in> set (rel_paths t) \<Longrightarrow> list_all valid_name r"
proof (induction t arbitrary: r)
  case (Node n d cs)
  show ?case
  proof (cases "r = []")
    case True
    then show ?thesis by simp
  next
    case False
    with Node.prems(2) obtain c r' where c: "c \<in> set cs" and r: "r = name c # r'"
      and r': "r' \<in> set (rel_paths c)" by auto
    from Node.prems(1) c have "valid_name (name c)" "valid_tree c" by (auto simp: list_all_iff)
    with Node.IH[OF c _ r'] r show ?thesis by simp
  qed
qed

lemma rel_paths_distinct: "valid_tree t \<Longrightarrow> distinct (rel_paths t)"
proof (induction t)
  case (Node n d cs)
  let ?f = "\<lambda>c. map ((#) (name c)) (rel_paths c)"
  have hd_in: "[] \<in> set (rel_paths c)" for c :: "'a tree" by (cases c) simp
  have names: "distinct (map name cs)" using Node.prems by simp
  have each: "distinct (?f c)" if "c \<in> set cs" for c
    using Node.IH[OF that] Node.prems that by (auto simp: list_all_iff distinct_map inj_on_def)
  have "distinct (concat (map ?f cs))"
  proof (rule distinct_concat)
    show "distinct (map ?f cs)"
    proof (rule ccontr)
      assume "\<not> distinct (map ?f cs)"
      then obtain i j where ij: "i < j" "j < length cs" "?f (cs ! i) = ?f (cs ! j)"
        by (auto simp: distinct_conv_nth nth_eq_iff_index_eq) (metis linorder_neqE_nat)
      from hd_in[of "cs ! i"] have "[name (cs ! i)] \<in> set (?f (cs ! i))" by force
      with ij(3) have "[name (cs ! i)] \<in> set (?f (cs ! j))" by simp
      then have "name (cs ! i) = name (cs ! j)" by auto
      with names ij(1,2) show False by (auto simp: distinct_conv_nth)
    qed
  next
    fix ys assume "ys \<in> set (map ?f cs)"
    then show "distinct ys" using each by auto
  next
    fix ys zs assume "ys \<in> set (map ?f cs)" "zs \<in> set (map ?f cs)" "ys \<noteq> zs"
    then obtain c c' where c: "c \<in> set cs" "ys = ?f c" "c' \<in> set cs" "zs = ?f c'" by auto
    with \<open>ys \<noteq> zs\<close> have "c \<noteq> c'" by auto
    with names c(1,3) have "name c \<noteq> name c'" by (auto simp: distinct_map inj_on_def)
    with c show "set ys \<inter> set zs = {}" by auto
  qed
  then show ?case by auto
qed


lemma valid_tree_keys_distinct:
  assumes "valid_tree t"
  shows "distinct (map rel_key (rel_paths t))"
proof -
  have "inj_on rel_key (set (rel_paths t))"
    by (rule inj_onI) (auto intro: rel_key_inj dest: rel_paths_valid[OF assms])
  then show ?thesis
    by (simp add: distinct_map rel_paths_distinct[OF assms])
qed

lemma find_child_none: "k \<notin> set (map name cs) \<Longrightarrow> find_child k cs = None"
  by (induction cs) auto

lemma find_child_last:
  "k \<notin> set (map name cs0) \<Longrightarrow> name c = k \<Longrightarrow> find_child k (cs0 @ [c]) = Some (cs0, c, [])"
  by (induction cs0) auto

lemma set_item_leaf:
  "k \<notin> set (map name cs) \<Longrightarrow> set_item [k] item (Node n d cs) = Inr (Node n d (cs @ [item]))"
  by (simp add: find_child_none)

lemma set_item_descend:
  assumes "r \<noteq> []" "k \<notin> set (map name cs0)" "name c = k"
  shows "set_item (k # r) item (Node n d (cs0 @ [c]))
    = (case set_item r item c of Inl e \<Rightarrow> Inl e | Inr c' \<Rightarrow> Inr (Node n d (cs0 @ [c'])))"
proof -
  obtain a r' where r: "r = a # r'" using assms(1) by (cases r) auto
  show ?thesis unfolding r by (simp add: find_child_last[OF assms(2,3)])
qed

lemma set_item_name: "set_item r item t = Inr t' \<Longrightarrow> name t' = name t"
  by (induction r item t rule: set_item.induct) (auto split: option.splits sum.splits)

lemma insert_all_append:
  "insert_all (xs @ ys) t = (case insert_all xs t of Inl e \<Rightarrow> Inl e | Inr t' \<Rightarrow> insert_all ys t')"
  by (induction xs arbitrary: t) (auto split: sum.splits)

lemma insert_all_descend:
  assumes "\<forall>(r, x) \<in> set its. r \<noteq> []" "k \<notin> set (map name cs0)" "name c = k"
  shows "insert_all (map (\<lambda>(r, x). (k # r, x)) its) (Node n d (cs0 @ [c]))
    = (case insert_all its c of Inl e \<Rightarrow> Inl e | Inr c' \<Rightarrow> Inr (Node n d (cs0 @ [c'])))"
  using assms
proof (induction its arbitrary: c)
  case Nil
  then show ?case by simp
next
  case (Cons it its)
  obtain r x where it: "it = (r, x)" by (cases it)
  with Cons.prems(1) have r: "r \<noteq> []" by simp
  let ?item = "Node (last r) x []"
  have s: "set_item (k # r) ?item (Node n d (cs0 @ [c]))
      = (case set_item r ?item c of Inl e \<Rightarrow> Inl e | Inr c' \<Rightarrow> Inr (Node n d (cs0 @ [c'])))"
    using r Cons.prems(2,3) by (rule set_item_descend)
  show ?case
  proof (cases "set_item r ?item c")
    case (Inl e)
    with s it r show ?thesis by simp
  next
    case (Inr c')
    then have "name c' = k" using set_item_name Cons.prems(3) by fastforce
    from Cons.IH[OF _ Cons.prems(2) this] Cons.prems(1)
    have "insert_all (map (\<lambda>(r, x). (k # r, x)) its) (Node n d (cs0 @ [c']))
      = (case insert_all its c' of Inl e \<Rightarrow> Inl e | Inr c'' \<Rightarrow> Inr (Node n d (cs0 @ [c''])))"
      by simp
    with s it r Inr show ?thesis by simp
  qed
qed

lemma rebuild_shift: "rebuild (\<lambda>r. g (k # r)) pre t = rebuild g (k # pre) t"
  by (induction t arbitrary: pre) simp

lemma name_rebuild: "name (rebuild g pre t) = name t"
  by (cases t) simp

lemma rel_paths_rebuild: "rel_paths (rebuild g pre t) = rel_paths t"
proof (induction t arbitrary: pre)
  case (Node n d cs)
  then show ?case by (simp add: comp_def name_rebuild cong: map_cong)
qed

lemma insert_forest:
  assumes "\<And>c g n d cs0. c \<in> set cs \<Longrightarrow> valid_tree c \<Longrightarrow> name c \<notin> set (map name cs0)
      \<Longrightarrow> insert_all (items_of g c) (Node n (d :: 'q option) cs0)
          = Inr (Node n d (cs0 @ [rebuild g [name c] c]))"
    and "distinct (map name cs1 @ map name cs)" "\<forall>c \<in> set cs. valid_tree c"
  shows "insert_all (concat (map (items_of g) cs)) (Node n (d :: 'q option) cs1)
     = Inr (Node n d (cs1 @ map (\<lambda>c. rebuild g [name c] c) cs))"
  using assms
proof (induction cs arbitrary: cs1)
  case Nil
  then show ?case by simp
next
  case (Cons c cs)
  have 1: "insert_all (items_of g c) (Node n d cs1) = Inr (Node n d (cs1 @ [rebuild g [name c] c]))"
    by (rule Cons.prems(1)) (use Cons.prems(2,3) in auto)
  have 2: "insert_all (concat (map (items_of g) cs)) (Node n d (cs1 @ [rebuild g [name c] c]))
     = Inr (Node n d ((cs1 @ [rebuild g [name c] c]) @ map (\<lambda>c. rebuild g [name c] c) cs))"
  proof (rule Cons.IH)
    show "distinct (map name (cs1 @ [rebuild g [name c] c]) @ map name cs)"
      using Cons.prems(2) by (simp add: name_rebuild)
    show "\<forall>c \<in> set cs. valid_tree c" using Cons.prems(3) by simp
  next
    fix c' g' n' and d' :: "'q option" and cs0 :: "'q tree list"
    assume "c' \<in> set cs" "valid_tree c'" "name c' \<notin> set (map name cs0)"
    then show "insert_all (items_of g' c') (Node n' d' cs0)
          = Inr (Node n' d' (cs0 @ [rebuild g' [name c'] c']))"
      using Cons.prems(1)[of c' cs0 g' n' d'] by simp
  qed
  show ?case by (simp add: insert_all_append 1 2)
qed

lemma items_of_Node:
  "items_of g (Node k dc cs)
   = ([k], g [k]) # map (\<lambda>(r, x). (k # r, x)) (concat (map (items_of (\<lambda>r. g (k # r))) cs))"
  by (simp add: items_of_def map_concat comp_def)

lemma items_of_nonempty: "\<forall>(r, x) \<in> set (concat (map (items_of g) cs)). r \<noteq> []"
  by (auto simp: items_of_def)

lemma insert_tree:
  "valid_tree c \<Longrightarrow> name c \<notin> set (map name cs0)
   \<Longrightarrow> insert_all (items_of g c) (Node n (d :: 'q option) cs0)
       = Inr (Node n d (cs0 @ [rebuild g [name c] c]))"
proof (induction c arbitrary: g n d cs0)
  case (Node k dc cs)
  let ?g' = "\<lambda>r. g (k # r)"
  have k: "k \<notin> set (map name cs0)" using Node.prems(2) by simp
  have f: "insert_all (concat (map (items_of ?g') cs)) (Node k (g [k]) [])
     = Inr (Node k (g [k]) ([] @ map (\<lambda>c. rebuild ?g' [name c] c) cs))"
  proof (rule insert_forest)
    show "distinct (map name [] @ map name cs)" using Node.prems(1) by simp
    show "\<forall>c \<in> set cs. valid_tree c" using Node.prems(1) by (simp add: list_all_iff)
  next
    fix c g' n' and d' :: "'q option" and cs0' :: "'q tree list"
    assume "c \<in> set cs" "valid_tree c" "name c \<notin> set (map name cs0')"
    then show "insert_all (items_of g' c) (Node n' d' cs0')
          = Inr (Node n' d' (cs0' @ [rebuild g' [name c] c]))"
      by (rule Node.IH)
  qed
  have "insert_all (items_of g (Node k dc cs)) (Node n d cs0)
      = insert_all (map (\<lambda>(r, x). (k # r, x)) (concat (map (items_of ?g') cs)))
          (Node n d (cs0 @ [Node k (g [k]) []]))"
    by (simp add: items_of_Node find_child_none[OF k])
  also have "\<dots> = (case insert_all (concat (map (items_of ?g') cs)) (Node k (g [k]) []) of
        Inl e \<Rightarrow> Inl e | Inr c' \<Rightarrow> Inr (Node n d (cs0 @ [c'])))"
    using items_of_nonempty k by (rule insert_all_descend) simp
  also have "\<dots> = Inr (Node n d (cs0 @ [Node k (g [k]) (map (\<lambda>c. rebuild ?g' [name c] c) cs)]))"
    by (simp add: f)
  finally show ?case by (simp add: rebuild_shift)
qed

lemma insert_children:
  assumes "valid_tree (Node n0 d0 cs)"
  shows "insert_all (map (\<lambda>r. (r, g r)) (tl (rel_paths (Node n0 d0 cs)))) (Node nm (x :: 'q option) [])
     = Inr (Node nm x (map (\<lambda>c. rebuild g [name c] c) cs))"
proof -
  have "insert_all (concat (map (items_of g) cs)) (Node nm x [])
     = Inr (Node nm x ([] @ map (\<lambda>c. rebuild g [name c] c) cs))"
  proof (rule insert_forest)
    show "distinct (map name [] @ map name cs)" using assms by simp
    show "\<forall>c \<in> set cs. valid_tree c" using assms by (simp add: list_all_iff)
  next
    fix c g' n' and d' :: "'q option" and cs0' :: "'q tree list"
    assume "c \<in> set cs" "valid_tree c" "name c \<notin> set (map name cs0')"
    then show "insert_all (items_of g' c) (Node n' d' cs0')
          = Inr (Node n' d' (cs0' @ [rebuild g' [name c] c]))"
      using insert_tree[of c cs0' g' n' d'] by simp
  qed
  moreover have "map (\<lambda>r. (r, g r)) (tl (rel_paths (Node n0 d0 cs))) = concat (map (items_of g) cs)"
    by (simp add: items_of_def[abs_def] map_concat comp_def)
  ultimately show ?thesis by simp
qed

lemma join_starts:
  assumes "list_all valid_name r" "r \<noteq> []"
  shows "\<exists>c s. join ''/'' r = c # s \<and> c \<noteq> CHR ''/''"
proof -
  obtain p ps where r: "r = p # ps" using assms(2) by (cases r) auto
  with assms(1) have "p \<noteq> []" "CHR ''/'' \<notin> set p" by (auto simp: valid_name_def)
  then obtain c p' where p: "p = c # p'" "c \<noteq> CHR ''/''" by (cases p) auto
  show ?thesis unfolding r p(1) using p(2) by (cases ps) auto
qed

lemma posix_parts_rel:
  assumes "list_all valid_name r" "r \<noteq> []"
  shows "posix_parts (join ''/'' r) = r"
proof -
  from join_starts[OF assms] obtain c s where j: "join ''/'' r = c # s" "c \<noteq> CHR ''/''" by blast
  have "components (join ''/'' r) = r" using assms(1) by (rule components_join_valid)
  then show ?thesis using j by (simp add: posix_parts_def components_def)
qed

lemma from_dict_loop_insert:
  assumes "\<forall>r \<in> set rs. r \<noteq> [] \<and> list_all valid_name r"
    and "\<forall>r \<in> set rs. coerce_data (d r) = Inr (g r)"
  shows "from_dict_loop t (map (\<lambda>r. (rel_key r, d r)) rs) = insert_all (map (\<lambda>r. (r, g r)) rs) t"
  using assms
proof (induction rs arbitrary: t)
  case Nil
  then show ?case by simp
next
  case (Cons r rs)
  from Cons.prems(1) have r: "r \<noteq> []" "list_all valid_name r" by simp_all
  then obtain p ps where rp0: "r = p # ps" by (cases r) auto
  with r have "p \<noteq> ''/''" by (auto simp: valid_name_def)
  note rp = rp0 this
  have pp: "posix_parts (rel_key r) = r" using r by (simp add: rel_key_def posix_parts_rel)
  have c: "coerce_data (d r) = Inr (g r)" using Cons.prems(2) by simp
  have ih: "from_dict_loop t' (map (\<lambda>r. (rel_key r, d r)) rs) = insert_all (map (\<lambda>r. (r, g r)) rs) t'"
    for t' using Cons.prems by (intro Cons.IH) simp_all
  have "(case posix_parts (rel_key r) of [] \<Rightarrow> [] | p # ps \<Rightarrow> if p = ''/'' then ps else posix_parts (rel_key r)) = r"
    unfolding pp using rp by simp
  then show ?case using r c ih by (simp add: Let_def split: sum.splits)
qed

lemma from_dict_loop_success:
  "from_dict_loop t items = Inr t' \<Longrightarrow> \<forall>(k, v) \<in> set items. \<exists>x. coerce_data v = Inr x"
  by (induction t items arbitrary: t' rule: from_dict_loop.induct)
     (auto simp: Let_def split: sum.splits)

lemma rel_paths_hd: "\<exists>rest. rel_paths t = [] # rest \<and> [] \<notin> set rest"
  by (cases t) auto

lemma rel_key_not_root:
  "list_all valid_name r \<Longrightarrow> r \<noteq> [] \<Longrightarrow> rel_key r \<noteq> ''/''"
  using join_valid_not_dot(2)[of r] by (simp add: rel_key_def)

lemma from_dict_split:
  assumes "valid_tree t"
  shows "from_dict (map (\<lambda>r. (rel_key r, d r)) (rel_paths t)) nm
     = (case coerce_data (d []) of
          Inl e \<Rightarrow> Inl e
        | Inr rd \<Rightarrow>
            (case from_dict_loop (Node nm rd []) (map (\<lambda>r. (rel_key r, d r)) (tl (rel_paths t))) of
               Inl e \<Rightarrow> Inl e
             | Inr t' \<Rightarrow> Inr \<lparr>parents = [], node = t'\<rparr>))"
proof -
  obtain rest where rp: "rel_paths t = [] # rest" "[] \<notin> set rest"
    using rel_paths_hd by blast
  have v: "list_all valid_name r" if "r \<in> set rest" for r
    using rel_paths_valid[OF assms, of r] that rp by simp
  have "filter (\<lambda>(k, _). k \<noteq> ''/'') (map (\<lambda>r. (rel_key r, d r)) rest) = map (\<lambda>r. (rel_key r, d r)) rest"
  proof -
    have "rel_key r \<noteq> ''/''" if "r \<in> set rest" for r
      using rel_key_not_root[OF v[OF that]] that rp(2) by auto
    then show ?thesis by (auto simp: filter_id_conv)
  qed
  then show ?thesis
    by (simp add: from_dict_def rp rel_key_def[of "[]"] Let_def cong: sum.case_cong)
qed

lemma from_dict_ok:
  assumes "valid_tree t" "\<forall>r \<in> set (rel_paths t). coerce_data (d r) = Inr (g r)"
  shows "from_dict (map (\<lambda>r. (rel_key r, d r)) (rel_paths t)) (name t)
     = Inr \<lparr>parents = [], node = rebuild g [] t\<rparr>"
proof -
  obtain n d0 cs where t: "t = Node n d0 cs" by (cases t)
  obtain rest where rp: "rel_paths t = [] # rest" "[] \<notin> set rest"
    using rel_paths_hd by blast
  have v: "\<forall>r \<in> set rest. r \<noteq> [] \<and> list_all valid_name r"
    using rel_paths_valid[OF assms(1)] rp by auto
  have c: "\<forall>r \<in> set rest. coerce_data (d r) = Inr (g r)" using assms(2) rp by simp
  have "from_dict_loop (Node n (g []) []) (map (\<lambda>r. (rel_key r, d r)) rest)
      = insert_all (map (\<lambda>r. (r, g r)) rest) (Node n (g []) [])"
    using v c by (rule from_dict_loop_insert)
  also have "\<dots> = Inr (Node n (g []) (map (\<lambda>c. rebuild g [name c] c) cs))"
    using insert_children[of n d0 cs g n "g []"] assms(1) rp unfolding t by simp
  finally have l: "from_dict_loop (Node (name t) (g []) []) (map (\<lambda>r. (rel_key r, d r)) rest)
      = Inr (rebuild g [] t)" by (simp add: t)
  have c0: "coerce_data (d []) = Inr (g [])" using assms(2) rp by simp
  have tl: "tl (rel_paths t) = rest" using rp by simp
  show ?thesis unfolding from_dict_split[OF assms(1)] c0 tl by (simp add: l)
qed

lemma from_dict_success:
  assumes "valid_tree t" "from_dict (map (\<lambda>r. (rel_key r, d r)) (rel_paths t)) nm = Inr T"
  shows "\<forall>r \<in> set (rel_paths t). \<exists>x. coerce_data (d r) = Inr x"
proof -
  obtain rest where rp: "rel_paths t = [] # rest" "[] \<notin> set rest"
    using rel_paths_hd by blast
  from assms(2) obtain rd t' where 1: "coerce_data (d []) = Inr rd"
    and 2: "from_dict_loop (Node nm rd []) (map (\<lambda>r. (rel_key r, d r)) (tl (rel_paths t))) = Inr t'"
    by (auto simp: from_dict_split[OF assms(1)] split: sum.splits)
  from from_dict_loop_success[OF 2] have "\<forall>r \<in> set rest. \<exists>x. coerce_data (d r) = Inr x"
    by (auto simp: rp)
  with 1 rp show ?thesis by auto
qed

lemma build_contents_ok:
  assumes "map tree_path ns = map (abs_path h) rs"
    and "\<forall>r \<in> set rs. list_all valid_name r"
    and "\<forall>r \<in> set rs. output_node_data out (abs_path h r) i = Inr (d r)"
    and "distinct (map fst acc @ map rel_key rs)"
  shows "build_contents out (tree_path h) i acc ns = Inr (acc @ map (\<lambda>r. (rel_key r, d r)) rs)"
  using assms
proof (induction ns arbitrary: rs acc)
  case Nil
  then show ?case by simp
next
  case (Cons n ns)
  from Cons.prems(1) obtain r rs' where rs: "rs = r # rs'" by (cases rs) auto
  with Cons.prems(1) have p: "tree_path n = abs_path h r" and ps: "map tree_path ns = map (abs_path h) rs'"
    by simp_all
  have v: "list_all valid_name r" using Cons.prems(2) rs by simp
  have o: "output_node_data out (tree_path n) i = Inr (d r)" using Cons.prems(3) rs p by simp
  have rp: "relative_path (tree_path n) (tree_path h) = Inr (rel_key r)"
    unfolding p using v by (rule relative_path_abs)
  have "rel_key r \<notin> fst ` set acc" using Cons.prems(4) rs by auto
  then have ds: "dict_set (rel_key r) (d r) acc = acc @ [(rel_key r, d r)]" by (rule dict_set_fresh)
  have "build_contents out (tree_path h) i (acc @ [(rel_key r, d r)]) ns
      = Inr ((acc @ [(rel_key r, d r)]) @ map (\<lambda>r. (rel_key r, d r)) rs')"
    using ps Cons.prems(2,3,4) rs by (intro Cons.IH) simp_all
  then show ?case by (simp add: o rp ds rs)
qed

lemma build_contents_success:
  "build_contents out root i acc ns = Inr c \<Longrightarrow>
   \<forall>n \<in> set ns. \<exists>v. output_node_data out (tree_path n) i = Inr v"
  by (induction ns arbitrary: acc) (auto split: sum.splits)

lemma build_contents_tree:
  assumes "valid_tree (node h)"
    and "\<forall>r \<in> set (rel_paths (node h)). output_node_data out (abs_path h r) i = Inr (d r)"
  shows "build_contents out (tree_path h) i [] (subtree h)
     = Inr (map (\<lambda>r. (rel_key r, d r)) (rel_paths (node h)))"
proof -
  have "build_contents out (tree_path h) i [] (subtree h)
     = Inr ([] @ map (\<lambda>r. (rel_key r, d r)) (rel_paths (node h)))"
  proof (rule build_contents_ok)
    show "map tree_path (subtree h) = map (abs_path h) (rel_paths (node h))" by (rule subtree_paths)
    show "\<forall>r \<in> set (rel_paths (node h)). list_all valid_name r"
      using rel_paths_valid[OF assms(1)] by blast
    show "\<forall>r \<in> set (rel_paths (node h)). output_node_data out (abs_path h r) i = Inr (d r)"
      by (rule assms(2))
    show "distinct (map fst [] @ map rel_key (rel_paths (node h)))"
      using valid_tree_keys_distinct[OF assms(1)] by simp
  qed
  then show ?thesis by simp
qed

lemma build_tree_one:
  assumes "valid_tree (node h)"
    and "build_contents out (tree_path h) i [] (subtree h) = Inr c"
    and "from_dict c (name (node h)) = Inr T"
  shows "T = \<lparr>parents = [], node = rebuild (out_payload h out i) [] (node h)\<rparr>"
proof -
  let ?d = "\<lambda>r. case output_node_data out (abs_path h r) i of Inr v \<Rightarrow> v | Inl e \<Rightarrow> NoneObj"
  let ?rs = "rel_paths (node h)"
  have "\<forall>p \<in> set (map tree_path (subtree h)). \<exists>v. output_node_data out p i = Inr v"
    using build_contents_success[OF assms(2)] by simp
  then have o: "\<forall>r \<in> set ?rs. output_node_data out (abs_path h r) i = Inr (?d r)"
    unfolding subtree_paths by auto
  have c: "c = map (\<lambda>r. (rel_key r, ?d r)) ?rs"
    using build_contents_tree[OF assms(1) o] assms(2) by simp
  have "\<forall>r \<in> set ?rs. \<exists>x. coerce_data (?d r) = Inr x"
    using assms(3) unfolding c by (rule from_dict_success[OF assms(1)])
  then have g: "\<forall>r \<in> set ?rs. coerce_data (?d r) = Inr (out_payload h out i r)"
    using o by (auto simp: out_payload_def split: sum.splits)
  from from_dict_ok[OF assms(1) g] assms(3) show ?thesis unfolding c by simp
qed

lemma build_trees_success:
  assumes "valid_tree (node h)" "build_trees h out is = Inr ts"
  shows "ts = map (\<lambda>i. \<lparr>parents = [], node = rebuild (out_payload h out i) [] (node h)\<rparr>) is"
  using assms(2)
proof (induction "is" arbitrary: ts)
  case Nil
  then show ?case by simp
next
  case (Cons i "is")
  from Cons.prems obtain c T ts' where c: "build_contents out (tree_path h) i [] (subtree h) = Inr c"
    and T: "from_dict c (name (node h)) = Inr T"
    and r: "build_trees h out is = Inr ts'" and ts: "ts = T # ts'"
    by (auto split: sum.splits)
  from build_tree_one[OF assms(1) c T] Cons.IH[OF r] ts show ?case by simp
qed


section \<open>Properties of the output trees\<close>

lemma from_dict_loop_name: "from_dict_loop t items = Inr t' \<Longrightarrow> name t' = name t"
proof (induction t items arbitrary: t' rule: from_dict_loop.induct)
  case (1 t)
  then show ?case by simp
next
  case (2 t path data rest)
  then show ?case
    by (auto simp: Let_def split: sum.splits dest!: set_item_name)
qed

lemma from_dict_root: "from_dict c nm = Inr T \<Longrightarrow> parents T = [] \<and> name (node T) = nm"
  by (auto simp: from_dict_def Let_def split: sum.splits dest!: from_dict_loop_name)

lemma build_trees_each:
  "build_trees h out is = Inr ts \<Longrightarrow>
   length ts = length is \<and> (\<forall>T \<in> set ts. \<exists>c. from_dict c (name (node h)) = Inr T)"
proof (induction "is" arbitrary: ts)
  case Nil
  then show ?case by simp
next
  case (Cons i "is")
  from Cons.prems obtain c T ts' where T: "from_dict c (name (node h)) = Inr T"
    and r: "build_trees h out is = Inr ts'" and ts: "ts = T # ts'"
    by (auto split: sum.splits)
  from Cons.IH[OF r] T ts show ?case by auto
qed

lemma map_over_subtree_trees:
  assumes "all_tree_inputs args kwargs = first_tree # other_trees"
    and "snd (map_over_subtree func args kwargs) = Inr res"
  shows "\<exists>k. check_other_trees first_tree other_trees = Inr ()
     \<and> check_all_return_values (dask_compute func (traverse first_tree args kwargs)) = Inr (Some k)
     \<and> build_trees first_tree (dask_compute func (traverse first_tree args kwargs)) [0..<k]
          = Inr (trees_of_result res)
     \<and> ((\<exists>t. res = SingleTree t) = (k = 1))"
proof -
  from assms have c: "check_other_trees first_tree other_trees = Inr ()"
    by (auto simp: map_over_subtree_def split: sum.splits)
  let ?out = "dask_compute func (traverse first_tree args kwargs)"
  from assms(2) obtain k ts where k: "check_all_return_values ?out = Inr (Some k)"
    and ts: "build_trees first_tree ?out [0..<k] = Inr ts"
    and res: "res = (case ts of [t] \<Rightarrow> SingleTree t | _ \<Rightarrow> TreeTuple ts)"
    unfolding map_over_subtree_reached[OF assms(1) c]
    by (fastforce split: sum.splits option.splits list.splits)
  from build_trees_each[OF ts] have l: "length ts = k" by simp
  have "trees_of_result res = ts" unfolding res by (auto split: list.splits)
  moreover have "(\<exists>t. res = SingleTree t) = (k = 1)"
    unfolding res using l by (cases ts rule: list.exhaust; cases "tl ts") auto
  ultimately show ?thesis using c k ts by auto
qed

lemma posix_parts_abs_path_any:
  "posix_parts (abs_path h r) = posix_parts (abs_path h []) @ components (join ''/'' r)"
proof -
  have e: "components (join ''/'' (ancestry h @ r))
      = components (join ''/'' (ancestry h)) @ components (join ''/'' r)"
    by (rule components_join_append)
  have "posix_parts (abs_path h r) = ''/'' # components (join ''/'' (ancestry h @ r))"
    unfolding abs_path_def by (rule posix_parts_abs)
  also have "\<dots> = (''/'' # components (join ''/'' (ancestry h))) @ components (join ''/'' r)"
    unfolding e by (simp only: append_Cons)
  also have "''/'' # components (join ''/'' (ancestry h)) = posix_parts (abs_path h [])"
    unfolding abs_path_def append_Nil2 by (rule posix_parts_abs[symmetric])
  finally show ?thesis .
qed

lemma relative_path_any: "relative_path (abs_path h r) (tree_path h) = Inr (norm_key r)"
proof -
  have "relative_to (posix_parts (abs_path h r)) (posix_parts (abs_path h []))
      = Inr (components (join ''/'' r))"
    unfolding posix_parts_abs_path_any[of h r] by (simp add: relative_to_def)
  then show ?thesis by (simp add: relative_path_def tree_path_abs norm_key_def)
qed

lemma relative_path_self: "relative_path (tree_path h) (tree_path h) = Inr ''/''"
  using relative_path_any[of h "[]"] by (simp add: tree_path_abs norm_key_def components_Nil)

lemma relative_keys_detached:
  "map (\<lambda>n. relative_path (tree_path n) (tree_path h)) (subtree h)
   = map (\<lambda>n. relative_path (tree_path n) ''/'') (subtree \<lparr>parents = [], node = node h\<rparr>)"
proof -
  let ?h' = "\<lparr>parents = [], node = node h\<rparr>"
  have p: "tree_path ?h' = ''/''" by (simp add: tree_path_def ancestry_def)
  have "map (\<lambda>n. relative_path (tree_path n) (tree_path h)) (subtree h)
      = map (\<lambda>p. relative_path p (tree_path h)) (map tree_path (subtree h))" by simp
  also have "\<dots> = map (\<lambda>r. Inr (norm_key r)) (rel_paths (node h))"
    unfolding subtree_paths by (simp add: relative_path_any)
  also have "\<dots> = map (\<lambda>p. relative_path p (tree_path ?h')) (map tree_path (subtree ?h'))"
    unfolding subtree_paths by (simp add: relative_path_any)
  finally show ?thesis by (simp add: p)
qed

lemma rebuilt_paths:
  "map tree_path (subtree \<lparr>parents = [], node = rebuild g [] t\<rparr>)
   = map tree_path (subtree \<lparr>parents = [], node = t\<rparr>)"
  by (simp add: subtree_paths rel_paths_rebuild abs_path_def ancestry_def)

text \<open>
  C5: every output tree of a successful call is a root (it has no ancestors, its own path
  is \<open>/\<close>) named like the first tree. The keys of its contents are the paths of the first
  tree's nodes relative to the first tree's own path, which becomes \<open>/\<close>; they are the keys
  that the same subtree gives when it is taken alone, without its ancestors. For a well
  named first tree, the paths of the output tree are those of that subtree taken alone.
\<close>

theorem output_paths_relative:
  assumes "all_tree_inputs args kwargs = first_tree # other_trees"
    and "snd (map_over_subtree func args kwargs) = Inr res"
    and "T \<in> set (trees_of_result res)"
  shows "parents T = [] \<and> tree_path T = ''/'' \<and> name (node T) = name (node first_tree)
     \<and> relative_path (tree_path first_tree) (tree_path first_tree) = Inr ''/''
     \<and> map (\<lambda>n. relative_path (tree_path n) (tree_path first_tree)) (subtree first_tree)
        = map (\<lambda>n. relative_path (tree_path n) ''/'')
            (subtree \<lparr>parents = [], node = node first_tree\<rparr>)
     \<and> (valid_tree (node first_tree) \<longrightarrow>
          map tree_path (subtree T)
          = map tree_path (subtree \<lparr>parents = [], node = node first_tree\<rparr>))"
proof -
  let ?out = "dask_compute func (traverse first_tree args kwargs)"
  from map_over_subtree_trees[OF assms(1,2)] obtain k
    where ts: "build_trees first_tree ?out [0..<k] = Inr (trees_of_result res)" by blast
  from build_trees_each[OF ts] assms(3)
  obtain c where "from_dict c (name (node first_tree)) = Inr T" by blast
  from from_dict_root[OF this] have r: "parents T = []" "name (node T) = name (node first_tree)"
    by simp_all
  then have p: "tree_path T = ''/''" by (simp add: tree_path_def ancestry_def)
  have v: "map tree_path (subtree T)
          = map tree_path (subtree \<lparr>parents = [], node = node first_tree\<rparr>)"
    if "valid_tree (node first_tree)"
  proof -
    from build_trees_success[OF that ts] assms(3)
    obtain i where "T = \<lparr>parents = [], node = rebuild (out_payload first_tree ?out i) [] (node first_tree)\<rparr>"
      by auto
    then show ?thesis by (simp add: rebuilt_paths)
  qed
  show ?thesis using r p v relative_path_self relative_keys_detached by blast
qed

lemma map_X: "snd (map_over_subtree ident_func [TreeArg tree_X] [])
    = Inr (SingleTree \<lparr>parents = [], node = Node ''x'' None [Node ''z'' (Some 3) []]\<rparr>)"
  by code_simp

theorem output_paths_relative_witness:
  "all_tree_inputs [TreeArg tree_X :: (nat, unit) arg] [] = tree_X # []
   \<and> snd (map_over_subtree ident_func [TreeArg tree_X] [])
       = Inr (SingleTree \<lparr>parents = [], node = Node ''x'' None [Node ''z'' (Some 3) []]\<rparr>)
   \<and> valid_tree (node tree_X)
   \<and> map tree_path (subtree tree_X) = [''/x'', ''/x/z'']
   \<and> map tree_path (subtree \<lparr>parents = [], node = Node ''x'' None [Node ''z'' (Some (3::nat)) []]\<rparr>)
       = [''/'', ''/z'']
   \<and> map (\<lambda>n. relative_path (tree_path n) (tree_path tree_X)) (subtree tree_X)
       = [Inr ''/'', Inr ''z'']"
proof -
  have i: "all_tree_inputs [TreeArg tree_X :: (nat, unit) arg] [] = tree_X # []"
    by (simp add: all_tree_inputs_def dict_values_def)
  have v: "valid_tree (node tree_X)" by (simp add: tree_X_def valid_name_def)
  have m: "\<lparr>parents = [], node = Node ''x'' None [Node ''z'' (Some 3) []]\<rparr>
      \<in> set (trees_of_result (SingleTree \<lparr>parents = [], node = Node ''x'' None [Node ''z'' (Some (3::nat)) []]\<rparr>))"
    by simp
  have p: "map tree_path (subtree tree_X) = [''/x'', ''/x/z'']"
    by (simp add: tree_X_def tree_A_def subtree_def tree_path_def ancestry_def)
  have d: "map (\<lambda>n. relative_path (tree_path n) ''/'') (subtree \<lparr>parents = [], node = node tree_X\<rparr>)
      = [Inr ''/'', Inr ''z'']"
    by (simp add: tree_X_def subtree_def tree_path_def ancestry_def relative_path_def
        relative_to_def posix_parts_def)
  have pd: "map tree_path (subtree \<lparr>parents = [], node = Node ''x'' None [Node ''z'' (Some (3::nat)) []]\<rparr>)
       = [''/'', ''/z'']"
    by (simp add: subtree_def tree_path_def ancestry_def)
  from output_paths_relative[OF i map_X m] i v p d map_X
  show ?thesis by (simp add: tree_X_def pd)
qed

section \<open>What the diff reports\<close>

lemma diff_pairs_first:
  "diff_pairs rne ps \<noteq> [] \<Longrightarrow>
   \<exists>i < length ps.
     (\<forall>j < i. same_here rne (fst (ps ! j)) (snd (ps ! j)))
     \<and> (if rne \<and> name (node (fst (ps ! i))) \<noteq> name (node (snd (ps ! i)))
        then diff_pairs rne ps
             = name_diff_msg (tree_path (fst (ps ! i))) (name (node (fst (ps ! i))))
                 (tree_path (snd (ps ! i))) (name (node (snd (ps ! i))))
        else length (tree_children (fst (ps ! i))) \<noteq> length (tree_children (snd (ps ! i)))
           \<and> diff_pairs rne ps
             = children_diff_msg (tree_path (fst (ps ! i))) (length (tree_children (fst (ps ! i))))
                 (tree_path (snd (ps ! i))) (length (tree_children (snd (ps ! i)))))"
proof (induction ps)
  case Nil
  then show ?case by simp
next
  case (Cons p ps)
  obtain x y where p: "p = (x, y)" by (cases p)
  show ?case
  proof (cases "same_here rne x y")
    case False
    then have "(\<forall>j < 0. same_here rne (fst ((p # ps) ! j)) (snd ((p # ps) ! j)))
     \<and> (if rne \<and> name (node (fst ((p # ps) ! 0))) \<noteq> name (node (snd ((p # ps) ! 0)))
        then diff_pairs rne (p # ps)
             = name_diff_msg (tree_path (fst ((p # ps) ! 0))) (name (node (fst ((p # ps) ! 0))))
                 (tree_path (snd ((p # ps) ! 0))) (name (node (snd ((p # ps) ! 0))))
        else length (tree_children (fst ((p # ps) ! 0))) \<noteq> length (tree_children (snd ((p # ps) ! 0)))
           \<and> diff_pairs rne (p # ps)
             = children_diff_msg (tree_path (fst ((p # ps) ! 0))) (length (tree_children (fst ((p # ps) ! 0))))
                 (tree_path (snd ((p # ps) ! 0))) (length (tree_children (snd ((p # ps) ! 0)))))"
      by (auto simp: p same_here_def)
    then show ?thesis by (intro exI[of _ 0]) simp
  next
    case True
    then have e: "diff_pairs rne (p # ps) = diff_pairs rne ps" by (auto simp: p same_here_def)
    with Cons.prems have "diff_pairs rne ps \<noteq> []" by simp
    from Cons.IH[OF this] obtain i where i: "i < length ps"
      "\<forall>j < i. same_here rne (fst (ps ! j)) (snd (ps ! j))"
      "if rne \<and> name (node (fst (ps ! i))) \<noteq> name (node (snd (ps ! i)))
        then diff_pairs rne ps
             = name_diff_msg (tree_path (fst (ps ! i))) (name (node (fst (ps ! i))))
                 (tree_path (snd (ps ! i))) (name (node (snd (ps ! i))))
        else length (tree_children (fst (ps ! i))) \<noteq> length (tree_children (snd (ps ! i)))
           \<and> diff_pairs rne ps
             = children_diff_msg (tree_path (fst (ps ! i))) (length (tree_children (fst (ps ! i))))
                 (tree_path (snd (ps ! i))) (length (tree_children (snd (ps ! i))))"
      by blast
    have "\<forall>j < Suc i. same_here rne (fst ((p # ps) ! j)) (snd ((p # ps) ! j))"
    proof (intro allI impI)
      fix j assume "j < Suc i"
      then show "same_here rne (fst ((p # ps) ! j)) (snd ((p # ps) ! j))"
        using True i(2) by (cases j) (simp_all add: p)
    qed
    with i(1,3) show ?thesis unfolding e by (intro exI[of _ "Suc i"]) (auto split: if_splits)
  qed
qed

text \<open>
  C4, as amended: \<open>diff_treestructure\<close> returns the empty string exactly when the two trees
  have the same branching structure (and the same names, when required), which is exactly
  when every level-order pair passes the test. A diff that is not empty is the report of
  the first level-order pair that fails the test: the name message of that pair when names
  are required and its two names differ, and otherwise the child-count message of that
  pair, whose child counts then differ. Trees with different numbers of nodes always get a
  non-empty diff, and some level-order pair of them has different child counts.
\<close>

theorem diff_treestructure_reports_first_mismatch:
  "((diff_treestructure a b rne = []) = iso rne (node a) (node b))
   \<and> ((diff_treestructure a b rne = [])
        = (\<forall>(x, y) \<in> set (zip (LevelOrderIter a) (LevelOrderIter b)). same_here rne x y))
   \<and> (diff_treestructure a b rne \<noteq> [] \<longrightarrow>
        (\<exists>i < length (zip (LevelOrderIter a) (LevelOrderIter b)).
           (\<forall>j < i. same_here rne (LevelOrderIter a ! j) (LevelOrderIter b ! j))
           \<and> (if rne \<and> name (node (LevelOrderIter a ! i)) \<noteq> name (node (LevelOrderIter b ! i))
              then diff_treestructure a b rne
                   = name_diff_msg (tree_path (LevelOrderIter a ! i))
                       (name (node (LevelOrderIter a ! i)))
                       (tree_path (LevelOrderIter b ! i)) (name (node (LevelOrderIter b ! i)))
              else length (tree_children (LevelOrderIter a ! i))
                     \<noteq> length (tree_children (LevelOrderIter b ! i))
                 \<and> diff_treestructure a b rne
                   = children_diff_msg (tree_path (LevelOrderIter a ! i))
                       (length (tree_children (LevelOrderIter a ! i)))
                       (tree_path (LevelOrderIter b ! i))
                       (length (tree_children (LevelOrderIter b ! i))))))
   \<and> (tree_size (node a) \<noteq> tree_size (node b) \<longrightarrow>
        diff_treestructure a b rne \<noteq> []
        \<and> (\<exists>i < length (zip (LevelOrderIter a) (LevelOrderIter b)).
              length (tree_children (LevelOrderIter a ! i))
                \<noteq> length (tree_children (LevelOrderIter b ! i))))"
proof (intro conjI impI)
  let ?ps = "zip (LevelOrderIter a) (LevelOrderIter b)"
  show "(diff_treestructure a b rne = []) = iso rne (node a) (node b)"
    by (rule diff_treestructure_iso)
  show "(diff_treestructure a b rne = []) = (\<forall>(x, y) \<in> set ?ps. same_here rne x y)"
    by (simp add: diff_treestructure_def diff_pairs_empty_iff)
  {
    assume "diff_treestructure a b rne \<noteq> []"
    then have "diff_pairs rne ?ps \<noteq> []" by (simp add: diff_treestructure_def)
    from diff_pairs_first[OF this] obtain i where i: "i < length ?ps"
      "\<forall>j < i. same_here rne (fst (?ps ! j)) (snd (?ps ! j))"
      "if rne \<and> name (node (fst (?ps ! i))) \<noteq> name (node (snd (?ps ! i)))
        then diff_pairs rne ?ps
             = name_diff_msg (tree_path (fst (?ps ! i))) (name (node (fst (?ps ! i))))
                 (tree_path (snd (?ps ! i))) (name (node (snd (?ps ! i))))
        else length (tree_children (fst (?ps ! i))) \<noteq> length (tree_children (snd (?ps ! i)))
           \<and> diff_pairs rne ?ps
             = children_diff_msg (tree_path (fst (?ps ! i))) (length (tree_children (fst (?ps ! i))))
                 (tree_path (snd (?ps ! i))) (length (tree_children (snd (?ps ! i))))"
      by blast
    have n: "fst (?ps ! j) = LevelOrderIter a ! j" "snd (?ps ! j) = LevelOrderIter b ! j"
      if "j \<le> i" for j using that i(1) by simp_all
    have "\<forall>j < i. same_here rne (LevelOrderIter a ! j) (LevelOrderIter b ! j)"
      using i(2) n by (metis less_imp_le)
    moreover note i(3)[unfolded n[OF order_refl], folded diff_treestructure_def]
    ultimately show "\<exists>i < length ?ps.
           (\<forall>j < i. same_here rne (LevelOrderIter a ! j) (LevelOrderIter b ! j))
           \<and> (if rne \<and> name (node (LevelOrderIter a ! i)) \<noteq> name (node (LevelOrderIter b ! i))
              then diff_treestructure a b rne
                   = name_diff_msg (tree_path (LevelOrderIter a ! i))
                       (name (node (LevelOrderIter a ! i)))
                       (tree_path (LevelOrderIter b ! i)) (name (node (LevelOrderIter b ! i)))
              else length (tree_children (LevelOrderIter a ! i))
                     \<noteq> length (tree_children (LevelOrderIter b ! i))
                 \<and> diff_treestructure a b rne
                   = children_diff_msg (tree_path (LevelOrderIter a ! i))
                       (length (tree_children (LevelOrderIter a ! i)))
                       (tree_path (LevelOrderIter b ! i))
                       (length (tree_children (LevelOrderIter b ! i))))"
      using i(1) by blast
  }
  {
    assume ne: "tree_size (node a) \<noteq> tree_size (node b)"
    then have "\<not> iso rne (node a) (node b)" using iso_tree_size by blast
    then show "diff_treestructure a b rne \<noteq> []" by (simp add: diff_treestructure_iso)
    from ne have "\<not> iso False (node a) (node b)" using iso_tree_size by blast
    then have "\<not> (\<forall>(x, y) \<in> set ?ps. same_here False x y)"
      using diff_treestructure_iso[of a b False]
      by (simp add: diff_treestructure_def diff_pairs_empty_iff)
    then obtain x y where "(x, y) \<in> set ?ps" "length (tree_children x) \<noteq> length (tree_children y)"
      by (auto simp: same_here_def)
    then obtain i where "i < length ?ps" "?ps ! i = (x, y)" by (auto simp: in_set_conv_nth)
    with \<open>length (tree_children x) \<noteq> length (tree_children y)\<close>
    show "\<exists>i < length ?ps. length (tree_children (LevelOrderIter a ! i))
                \<noteq> length (tree_children (LevelOrderIter b ! i))"
      by (intro exI[of _ i]) auto
  }
qed

text \<open>
  Two trees with two nodes and one node, and different root names: with names required the
  diff is the name mismatch at the roots, the only level-order pair, and not a child-count
  mismatch.
\<close>

theorem diff_treestructure_name_first_counterexample:
  "tree_size (node left_tree) \<noteq> tree_size (node right_tree)
   \<and> zip (LevelOrderIter left_tree) (LevelOrderIter right_tree) = [(left_tree, right_tree)]
   \<and> diff_treestructure left_tree right_tree True = name_diff_msg ''/'' ''x'' ''/'' ''y''
   \<and> diff_treestructure left_tree right_tree True
       \<noteq> children_diff_msg (tree_path left_tree) (length (tree_children left_tree))
           (tree_path right_tree) (length (tree_children right_tree))"
proof -
  have z: "zip (LevelOrderIter left_tree) (LevelOrderIter right_tree) = [(left_tree, right_tree)]"
    by (simp add: left_tree_def right_tree_def LevelOrderIter_def
        level_order_Nil level_order_Cons tree_children_def)
  have p: "tree_path left_tree = ''/''" "tree_path right_tree = ''/''"
    "length (tree_children left_tree) = 1" "length (tree_children right_tree) = 0"
    "name (node left_tree) = ''x''" "name (node right_tree) = ''y''"
    by (simp_all add: left_tree_def right_tree_def tree_path_def ancestry_def tree_children_def)
  have m: "name_diff_msg ''/'' ''x'' ''/'' ''y'' \<noteq> children_diff_msg ''/'' 1 ''/'' 0"
    by code_simp
  have d: "diff_treestructure left_tree right_tree True = name_diff_msg ''/'' ''x'' ''/'' ''y''"
    by (simp add: diff_treestructure_def z p)
  show ?thesis using z d m by (simp add: p) (simp add: left_tree_def right_tree_def)
qed

theorem diff_treestructure_reports_first_mismatch_witness:
  "tree_size (node left_tree) \<noteq> tree_size (node right_tree)
   \<and> diff_treestructure left_tree right_tree False \<noteq> []
   \<and> diff_treestructure left_tree right_tree False = children_diff_msg ''/'' 1 ''/'' 0
   \<and> diff_treestructure left_tree right_tree True \<noteq> []
   \<and> diff_treestructure left_tree right_tree True = name_diff_msg ''/'' ''x'' ''/'' ''y''"
proof -
  have ne: "tree_size (node left_tree) \<noteq> tree_size (node right_tree)"
    by (simp add: left_tree_def right_tree_def)
  have l: "LevelOrderIter left_tree = [left_tree, \<lparr>parents = [node left_tree], node = Node ''c'' None []\<rparr>]"
    "LevelOrderIter right_tree = [right_tree]"
    by (simp_all add: left_tree_def right_tree_def LevelOrderIter_def
        level_order_Nil level_order_Cons tree_children_def)
  have p: "tree_path left_tree = ''/''" "tree_path right_tree = ''/''"
    "length (tree_children left_tree) = 1" "length (tree_children right_tree) = 0"
    "name (node left_tree) = ''x''" "name (node right_tree) = ''y''"
    by (simp_all add: left_tree_def right_tree_def tree_path_def ancestry_def tree_children_def)
  from diff_treestructure_reports_first_mismatch[of left_tree right_tree False] ne
  have f: "diff_treestructure left_tree right_tree False \<noteq> []
     \<and> diff_treestructure left_tree right_tree False = children_diff_msg ''/'' 1 ''/'' 0"
    by (auto simp: l p)
  from diff_treestructure_reports_first_mismatch[of left_tree right_tree True] ne
  have t: "diff_treestructure left_tree right_tree True \<noteq> []
     \<and> diff_treestructure left_tree right_tree True = name_diff_msg ''/'' ''x'' ''/'' ''y''"
    by (auto simp: l p)
  from ne f t show ?thesis
    by (simp add: name_diff_msg_nonempty children_diff_msg_nonempty)
qed

section \<open>Where the function is called\<close>

text \<open>
  C9: at every position of the traversal the row belongs to the node of the first tree at
  that position, and what is recorded there depends on that node alone. If it is empty,
  \<open>None\<close> is recorded, before and after the deferred calls are resolved, whatever the
  other arguments hold at that position. If it is not empty, a call of the function on the
  arguments of that row is recorded, and resolving puts the value of the function there,
  also when every other tree is empty at that position. The calls made are those of the
  rows whose node of the first tree is not empty, one for each, in order.
\<close>

theorem invocation_decided_by_reference:
  assumes "all_tree_inputs args kwargs = first_tree # other_trees"
    and "check_other_trees first_tree other_trees = Inr ()"
    and "distinct (map tree_path (subtree first_tree))"
    and "j < length (subtree first_tree)"
  shows "fst (node_rows first_tree args kwargs ! j) = subtree first_tree ! j
     \<and> dict_keys (dask_compute func (traverse first_tree args kwargs)) ! j
         = tree_path (subtree first_tree ! j)
     \<and> (is_empty (subtree first_tree ! j) \<longrightarrow>
          dict_values (traverse first_tree args kwargs) ! j = Immediate NoneObj
          \<and> dict_values (dask_compute func (traverse first_tree args kwargs)) ! j = NoneObj)
     \<and> (\<not> is_empty (subtree first_tree ! j) \<longrightarrow>
          dict_values (traverse first_tree args kwargs) ! j
            = Delayed (fst (node_call (length args) (dict_keys kwargs)
                               (snd (node_rows first_tree args kwargs ! j))))
                      (snd (node_call (length args) (dict_keys kwargs)
                               (snd (node_rows first_tree args kwargs ! j))))
          \<and> dict_values (dask_compute func (traverse first_tree args kwargs)) ! j
            = func (fst (node_call (length args) (dict_keys kwargs)
                            (snd (node_rows first_tree args kwargs ! j))))
                   (snd (node_call (length args) (dict_keys kwargs)
                            (snd (node_rows first_tree args kwargs ! j)))))
     \<and> fst (map_over_subtree func args kwargs)
         = map (\<lambda>row. node_call (length args) (dict_keys kwargs) (snd row))
             (filter (\<lambda>row. \<not> is_empty (fst row)) (node_rows first_tree args kwargs))"
proof -
  let ?rows = "node_rows first_tree args kwargs"
  have f: "map fst ?rows = subtree first_tree" using assms(1,2) by (rule node_rows_fst)
  then have len: "length ?rows = length (subtree first_tree)" by (metis length_map)
  with assms(4) have j: "j < length ?rows" by simp
  have fj: "fst (?rows ! j) = subtree first_tree ! j"
    using f j by (metis nth_map)
  have t: "traverse first_tree args kwargs = map (recorded (length args) (dict_keys kwargs)) ?rows"
    using assms(1-3) by (rule traverse_distinct)
  have o: "dask_compute func (traverse first_tree args kwargs)
       = map (\<lambda>row. (tree_path (fst row),
                      if is_empty (fst row) then NoneObj
                      else func (fst (node_call (length args) (dict_keys kwargs) (snd row)))
                             (snd (node_call (length args) (dict_keys kwargs) (snd row)))))
           ?rows"
    using assms(1-3) by (rule traversal_calls_and_results(2))
  have c: "fst (map_over_subtree func args kwargs)
         = map (\<lambda>row. node_call (length args) (dict_keys kwargs) (snd row))
             (filter (\<lambda>row. \<not> is_empty (fst row)) ?rows)"
    using assms(1-3) by (rule traversal_calls_and_results(1))
  have tv: "dict_values (traverse first_tree args kwargs) ! j
      = snd (recorded (length args) (dict_keys kwargs) (?rows ! j))"
    unfolding t using j by (simp add: dict_values_def)
  have ov: "dict_values (dask_compute func (traverse first_tree args kwargs)) ! j
      = (if is_empty (fst (?rows ! j)) then NoneObj
         else func (fst (node_call (length args) (dict_keys kwargs) (snd (?rows ! j))))
                (snd (node_call (length args) (dict_keys kwargs) (snd (?rows ! j)))))"
    unfolding o using j by (simp add: dict_values_def)
  have ok: "dict_keys (dask_compute func (traverse first_tree args kwargs)) ! j
      = tree_path (fst (?rows ! j))"
    unfolding o using j by (simp add: dict_keys_def)
  show ?thesis using fj tv ov ok c by (simp add: recorded_def)
qed

theorem invocation_decided_by_reference_witness:
  "all_tree_inputs [TreeArg tree_A, TreeArg tree_B :: (nat, unit) arg] [] = tree_A # [tree_B]
   \<and> check_other_trees tree_A [tree_B] = Inr ()
   \<and> distinct (map tree_path (subtree tree_A))
   \<and> (1::nat) < length (subtree tree_A)
   \<and> map is_empty (subtree tree_A) = [False, True, False, False]
   \<and> map is_empty (subtree tree_B) = [True, False, True, True]
   \<and> dict_values (dask_compute ident_func (traverse tree_A [TreeArg tree_A, TreeArg tree_B] [])) ! 1
       = NoneObj
   \<and> dict_values (dask_compute ident_func (traverse tree_A [TreeArg tree_A, TreeArg tree_B] [])) ! 0
       = ident_func [DatasetArg (Some 1), DatasetArg None] []
   \<and> fst (map_over_subtree ident_func [TreeArg tree_A, TreeArg tree_B] [])
       = [([DatasetArg (Some 1), DatasetArg None], []),
          ([DatasetArg (Some 3), DatasetArg None], []),
          ([DatasetArg (Some 2), DatasetArg None], [])]"
proof -
  have d: "distinct (map tree_path (subtree tree_A))" by (simp add: paths_A)
  have l: "(1::nat) < length (subtree tree_A)" "(0::nat) < length (subtree tree_A)"
    by (simp_all add: tree_A_def subtree_def)
  have e: "map is_empty (subtree tree_A) = [False, True, False, False]"
    "map is_empty (subtree tree_B) = [True, False, True, True]"
    by (simp_all add: tree_A_def tree_B_def subtree_def is_empty_def)
  from invocation_decided_by_reference[OF inputs_AB check_AB d l(1), of ident_func]
  have 1: "dict_values (dask_compute ident_func (traverse tree_A [TreeArg tree_A, TreeArg tree_B] [])) ! 1
       = NoneObj"
    by (simp add: subtree_def tree_A_def is_empty_def)
  from invocation_decided_by_reference[OF inputs_AB check_AB d l(2), of ident_func]
  have 0: "dict_values (dask_compute ident_func (traverse tree_A [TreeArg tree_A, TreeArg tree_B] [])) ! 0
       = ident_func [DatasetArg (Some 1), DatasetArg None] []"
    and c: "fst (map_over_subtree ident_func [TreeArg tree_A, TreeArg tree_B] [])
       = [([DatasetArg (Some 1), DatasetArg None], []),
          ([DatasetArg (Some 3), DatasetArg None], []),
          ([DatasetArg (Some 2), DatasetArg None], [])]"
    by (simp_all add: node_rows_def dict_values_def subtree_def tree_A_def tree_B_def
        is_empty_def to_dataset_def node_call_def dict_keys_def dict_of_items_def)
  from inputs_AB check_AB d l(1) e 1 0 c show ?thesis by simp
qed


section \<open>Where the function is called, and the empty nodes of the output\<close>














section \<open>Functions that return several values\<close>













end
